theory Spec2Isabelle
  imports Complex_Main
begin

section \<open>Numbers of the source language\<close>

text \<open>
  The fields \<open>interval\<close> and \<open>max\<close> are values of the TypeScript type \<open>number\<close>. Besides the
  finite values that type holds \<open>NaN\<close> and the two infinities, and the source uses
  \<open>Infinity\<close> itself (the sentinel \<open>NEVER\<close>). Finite values are taken as reals: the
  rounding error of double arithmetic and the sign of zero are not modelled.
\<close>

datatype number = NaN | NegInf | Num real | PosInf

text \<open>The comparison \<open>a < b\<close>: false as soon as one side is \<open>NaN\<close>.\<close>

fun lt :: "number \<Rightarrow> number \<Rightarrow> bool" where
  "lt (Num x) (Num y) = (x < y)"
| "lt (Num x) PosInf = True"
| "lt NegInf (Num y) = True"
| "lt NegInf PosInf = True"
| "lt _ _ = False"

definition gt :: "number \<Rightarrow> number \<Rightarrow> bool" where
  "gt a b = lt b a"

text \<open>The strict equality \<open>a === b\<close> on numbers: \<open>NaN\<close> equals nothing.\<close>

definition strict_eq :: "number \<Rightarrow> number \<Rightarrow> bool" where
  "strict_eq a b = (a \<noteq> NaN \<and> a = b)"

text \<open>The comparison \<open>a <= b\<close>.\<close>

definition le :: "number \<Rightarrow> number \<Rightarrow> bool" where
  "le a b = (lt a b \<or> strict_eq a b)"

definition ge :: "number \<Rightarrow> number \<Rightarrow> bool" where
  "ge a b = le b a"

fun Math_round :: "number \<Rightarrow> number" where
  "Math_round (Num x) = Num (of_int \<lfloor>x + 1 / 2\<rfloor>)"
| "Math_round a = a"

fun Math_ceil :: "number \<Rightarrow> number" where
  "Math_ceil (Num x) = Num (of_int \<lceil>x\<rceil>)"
| "Math_ceil a = a"

fun Math_floor :: "number \<Rightarrow> number" where
  "Math_floor (Num x) = Num (of_int \<lfloor>x\<rfloor>)"
| "Math_floor a = a"

fun neg :: "number \<Rightarrow> number" where
  "neg (Num x) = Num (- x)"
| "neg PosInf = NegInf"
| "neg NegInf = PosInf"
| "neg NaN = NaN"

fun add :: "number \<Rightarrow> number \<Rightarrow> number" where
  "add (Num x) (Num y) = Num (x + y)"
| "add NaN _ = NaN"
| "add _ NaN = NaN"
| "add PosInf NegInf = NaN"
| "add NegInf PosInf = NaN"
| "add PosInf _ = PosInf"
| "add NegInf _ = NegInf"
| "add (Num x) b = b"

definition sub :: "number \<Rightarrow> number \<Rightarrow> number" where
  "sub a b = add a (neg b)"

text \<open>An infinity times a finite value: the sign decides, and zero gives \<open>NaN\<close>.\<close>

definition scale_inf :: "number \<Rightarrow> real \<Rightarrow> number" where
  "scale_inf a x = (if x = 0 then NaN else if 0 < x then a else neg a)"

fun mul :: "number \<Rightarrow> number \<Rightarrow> number" where
  "mul (Num x) (Num y) = Num (x * y)"
| "mul NaN _ = NaN"
| "mul _ NaN = NaN"
| "mul (Num x) b = scale_inf b x"
| "mul a (Num y) = scale_inf a y"
| "mul PosInf b = b"
| "mul NegInf b = neg b"

fun Math_min :: "number \<Rightarrow> number \<Rightarrow> number" where
  "Math_min NaN _ = NaN"
| "Math_min _ NaN = NaN"
| "Math_min a b = (if lt b a then b else a)"

section \<open>The data of a poll\<close>

datatype phase =
    Constructed | Disposed | Reconnected | Refreshed | Rejected | Resolved
  | Standby | Started | Stopped | WhenRejected | WhenResolved

text \<open>\<open>backoff: boolean | number\<close>.\<close>

datatype backoff = Flag bool | Growth number

text \<open>\<open>IPoll.Frequency\<close>.\<close>

record frequency =
  freq_backoff :: backoff
  freq_interval :: number
  freq_max :: number

text \<open>
  \<open>IPoll.State\<close>. The payload \<open>null\<close> is \<open>None\<close>; the types \<open>T\<close> of the resolved values and
  \<open>U\<close> of the rejected ones are one type \<open>'a\<close>. The timestamp is in milliseconds.
\<close>

record 'a state =
  interval :: number
  payload :: "'a option"
  phase :: phase
  timestamp :: int

definition MAX_INTERVAL :: number where
  "MAX_INTERVAL = Num 2147483647"

definition IMMEDIATE :: number where
  "IMMEDIATE = Num 0"

definition NEVER :: number where
  "NEVER = PosInf"

definition DEFAULT_BACKOFF :: number where
  "DEFAULT_BACKOFF = Num 3"

definition DEFAULT_FREQUENCY :: frequency where
  "DEFAULT_FREQUENCY = \<lparr>freq_backoff = Flag True, freq_interval = Num 1000, freq_max = Num (30 * 1000)\<rparr>"

definition DEFAULT_NAME :: string where
  "DEFAULT_NAME = ''unknown''"

definition DEFAULT_STATE :: "'a state" where
  "DEFAULT_STATE = \<lparr>interval = NEVER, payload = None, phase = Constructed, timestamp = 0\<rparr>"

definition DISPOSED_STATE :: "'a state" where
  "DISPOSED_STATE = \<lparr>interval = NEVER, payload = None, phase = Disposed, timestamp = 0\<rparr>"

section \<open>The backoff computation\<close>

text \<open>
  \<open>Private.getRandomIntInclusive\<close>. The value of \<open>Math.random()\<close> is the argument \<open>rnd\<close>;
  the host draws it from \<open>[0, 1)\<close>.
\<close>

definition getRandomIntInclusive :: "real \<Rightarrow> number \<Rightarrow> number \<Rightarrow> number" where
  "getRandomIntInclusive rnd min0 max0 =
     (let min1 = Math_ceil min0;
          max1 = Math_floor max0
      in add (Math_floor (mul (Num rnd) (add (sub max1 min1) (Num 1)))) min1)"

text \<open>\<open>Private.sleep\<close>.\<close>

definition sleep :: "real \<Rightarrow> frequency \<Rightarrow> 'a state \<Rightarrow> number" where
  "sleep rnd freq last0 =
     (let growth = (case freq_backoff freq of
                      Flag True \<Rightarrow> DEFAULT_BACKOFF
                    | Flag False \<Rightarrow> Num 1
                    | Growth b \<Rightarrow> b);
          random = getRandomIntInclusive rnd (freq_interval freq) (mul (interval last0) growth)
      in Math_min (freq_max freq) random)"

section \<open>The frequency setter\<close>

datatype error = Error string

text \<open>
  The body of the setter after its first test: the two roundings, the three tests that
  throw, and the value that is stored.
\<close>

definition validate :: "frequency \<Rightarrow> error + frequency" where
  "validate f =
     (let backoff1 = freq_backoff f;
          interval1 = Math_round (freq_interval f);
          max1 = Math_round (freq_max f)
      in if (case backoff1 of Growth b \<Rightarrow> lt b (Num 1) | Flag _ \<Rightarrow> False)
           then Inl (Error ''Poll backoff growth factor must be at least 1'')
         else if lt interval1 (Num 0) \<or> gt interval1 max1
           then Inl (Error ''Poll interval must be between 0 and max'')
         else if gt max1 MAX_INTERVAL
           then Inl (Error ''Max interval must be less than 2147483647'')
         else Inr \<lparr>freq_backoff = backoff1, freq_interval = interval1, freq_max = max1\<rparr>)"

text \<open>
  \<open>JSONExt.deepEqual\<close> on two frequencies: the fields are compared with \<open>===\<close>, a flag
  never equals a number.
\<close>

definition deepEqual :: "frequency \<Rightarrow> frequency \<Rightarrow> bool" where
  "deepEqual f g =
     ((case (freq_backoff f, freq_backoff g) of
         (Flag a, Flag b) \<Rightarrow> a = b
       | (Growth a, Growth b) \<Rightarrow> strict_eq a b
       | _ \<Rightarrow> False)
      \<and> strict_eq (freq_interval f) (freq_interval g)
      \<and> strict_eq (freq_max f) (freq_max g))"

section \<open>The poll and its host\<close>

text \<open>\<open>Poll.Standby\<close>, and the standby option: a literal or a function.\<close>

datatype standby = Never | WhenHidden

datatype standby_option = Literal standby | Function

text \<open>What a standby function returns: \<open>boolean | Poll.Standby\<close>.\<close>

datatype standby_value = Bool bool | Lit standby

text \<open>
  What the host answers while an armed callback runs: the value the standby function
  returns if it is called, and whether a document exists and is hidden.
\<close>

record host =
  standby_returns :: standby_value
  document_hidden :: bool

text \<open>
  The argument of \<open>schedule\<close>, of type \<open>Partial<IPoll.State & {cancel}>\<close>: a key that is
  absent is \<open>None\<close>.
\<close>

record 'a partial_state =
  cancel :: "('a state \<Rightarrow> bool) option"
  next_interval :: "number option"
  next_payload :: "'a option option"
  next_phase :: "phase option"
  next_timestamp :: "int option"

text \<open>
  A tick promise is known by the number of its \<open>PromiseDelegate\<close>; the delegates are
  numbered in the order of their creation, and \<open>_tick\<close> always holds the latest one.
\<close>

datatype settlement = Unsettled | Fulfilled | Failed error

text \<open>
  A call of \<open>schedule\<close> that is suspended at one of its two \<open>await\<close>s, with the local
  values it needs afterwards: at \<open>await this.tick\<close> the awaited promise and \<open>next\<close>; at
  \<open>await pending.promise\<close> the promises \<open>pending\<close> and \<open>scheduled\<close> and the new \<open>state\<close>.
\<close>

datatype 'a task =
    AwaitTick nat "'a partial_state"
  | AwaitPending nat nat "'a state"

text \<open>
  A callback \<open>execute\<close> armed with \<open>requestAnimationFrame\<close> or \<open>setTimeout\<close>: its handle,
  its delay, and the promise \<open>scheduled\<close> of its closure.
\<close>

datatype timer_kind = AnimationFrame | Timeout

datatype callback = Callback (cb_kind: timer_kind) (cb_handle: int) (cb_delay: number) (cb_tick: nat)

text \<open>How a promise returned by the factory settles.\<close>

datatype 'a outcome = Resolves "'a option" | Rejects "'a option"

text \<open>
  The private fields of \<open>Poll\<close>, the state of its tick promises, what its two signals have
  emitted, and the part of the host's event loop that belongs to the poll: whether the
  \<open>when\<close> promise is still unsettled, the suspended calls of \<open>schedule\<close>, the armed
  callbacks, the factory promises that have not settled (each with the tick promise its
  handlers captured) and the states the factory was called with.
\<close>

record 'a poll =
  name :: string
  p_frequency :: frequency
  p_standby :: standby_option
  p_state :: "'a state"
  p_tick :: nat
  p_timeout :: int
  promises :: "nat \<Rightarrow> settlement"
  ticked :: "'a state list"
  disposed :: nat
  cleared :: bool
  when_unsettled :: bool
  tasks :: "'a task list"
  timers :: "callback list"
  next_frame :: int
  next_timeout :: int
  requests :: "nat list"
  factory_calls :: "'a state list"

definition isDisposed :: "'a poll \<Rightarrow> bool" where
  "isDisposed p = (phase (p_state p) = Disposed)"

text \<open>\<open>resolve\<close> and \<open>reject\<close> of a \<open>PromiseDelegate\<close>: a settled promise stays as it is.\<close>

definition resolve :: "nat \<Rightarrow> (nat \<Rightarrow> settlement) \<Rightarrow> (nat \<Rightarrow> settlement)" where
  "resolve t ps = (if ps t = Unsettled then ps(t := Fulfilled) else ps)"

definition reject :: "nat \<Rightarrow> error \<Rightarrow> (nat \<Rightarrow> settlement) \<Rightarrow> (nat \<Rightarrow> settlement)" where
  "reject t e ps = (if ps t = Unsettled then ps(t := Failed e) else ps)"

definition remove_nth :: "nat \<Rightarrow> 'b list \<Rightarrow> 'b list" where
  "remove_nth k xs = take k xs @ drop (Suc k) xs"

subsection \<open>The frequency setter and the constructor\<close>

text \<open>The setter of \<open>frequency\<close>: \<open>Inl\<close> is the error thrown, before anything is assigned.\<close>

definition set_frequency :: "frequency \<Rightarrow> 'a poll \<Rightarrow> error + 'a poll" where
  "set_frequency f p =
     (if isDisposed p \<or> deepEqual f (p_frequency p) then Inr p
      else case validate f of
             Inl e \<Rightarrow> Inl e
           | Inr g \<Rightarrow> Inr (p\<lparr>p_frequency := g\<rparr>))"

definition set_standby :: "standby_option \<Rightarrow> 'a poll \<Rightarrow> 'a poll" where
  "set_standby s p = (if isDisposed p \<or> p_standby p = s then p else p\<lparr>p_standby := s\<rparr>)"

text \<open>
  \<open>Poll.IOptions\<close>. The factory and the \<open>when\<close> promise belong to the host: how they settle
  is an event. \<open>frequency\<close> is a \<open>Partial<IPoll.Frequency>\<close>.
\<close>

record options =
  o_backoff :: "backoff option"
  o_interval :: "number option"
  o_max :: "number option"
  o_name :: "string option"
  o_standby :: "standby_option option"

definition DEFAULT_STANDBY :: standby where
  "DEFAULT_STANDBY = WhenHidden"

text \<open>
  The constructor, up to the handlers it attaches to \<open>when\<close>. In it the setter compares the
  new frequency with \<open>{}\<close>, which is never equal, so the frequency is validated; an empty
  name is falsy and gives the default name.
\<close>

definition construct :: "options \<Rightarrow> int \<Rightarrow> error + 'a poll" where
  "construct opts now =
     (case validate
         \<lparr>freq_backoff = (case o_backoff opts of None \<Rightarrow> freq_backoff DEFAULT_FREQUENCY | Some b \<Rightarrow> b),
          freq_interval = (case o_interval opts of None \<Rightarrow> freq_interval DEFAULT_FREQUENCY | Some i \<Rightarrow> i),
          freq_max = (case o_max opts of None \<Rightarrow> freq_max DEFAULT_FREQUENCY | Some m \<Rightarrow> m)\<rparr> of
        Inl e \<Rightarrow> Inl e
      | Inr f \<Rightarrow> Inr
         \<lparr>name = (case o_name opts of None \<Rightarrow> DEFAULT_NAME | Some n \<Rightarrow> if n = [] then DEFAULT_NAME else n),
          p_frequency = f,
          p_standby = (case o_standby opts of None \<Rightarrow> Literal DEFAULT_STANDBY | Some s \<Rightarrow> s),
          p_state = DEFAULT_STATE\<lparr>timestamp := now\<rparr>,
          p_tick = 0,
          p_timeout = - 1,
          promises = (\<lambda>_. Unsettled),
          ticked = [],
          disposed = 0,
          cleared = False,
          when_unsettled = True,
          tasks = [],
          timers = [],
          next_frame = 1,
          next_timeout = 1,
          requests = [],
          factory_calls = []\<rparr>)"

subsection \<open>dispose and schedule\<close>

definition dispose :: "int \<Rightarrow> 'a poll \<Rightarrow> 'a poll" where
  "dispose now p =
     (if isDisposed p then p
      else p\<lparr>p_state := DISPOSED_STATE\<lparr>timestamp := now\<rparr>,
             promises := reject (p_tick p) (Error (''Poll ('' @ name p @ '') is disposed.'')) (promises p),
             disposed := Suc (disposed p),
             cleared := True\<rparr>)"

text \<open>
  \<open>cancelAnimationFrame\<close> and \<open>clearTimeout\<close> on the cached handle: the first when the
  interval of the last state is \<open>IMMEDIATE\<close>.
\<close>

definition clear_schedule :: "'a state \<Rightarrow> int \<Rightarrow> callback list \<Rightarrow> callback list" where
  "clear_schedule last0 h cbs =
     (let k = (if strict_eq (interval last0) IMMEDIATE then AnimationFrame else Timeout)
      in filter (\<lambda>c. \<not> (cb_kind c = k \<and> cb_handle c = h)) cbs)"

text \<open>
  The object \<open>state\<close> built in \<open>schedule\<close>: the keys of \<open>next\<close> laid over the four
  defaults. The clock is read here.
\<close>

definition new_state :: "int \<Rightarrow> 'a partial_state \<Rightarrow> frequency \<Rightarrow> 'a state" where
  "new_state now nxt freq =
     \<lparr>interval = (case next_interval nxt of None \<Rightarrow> freq_interval freq | Some i \<Rightarrow> i),
      payload = (case next_payload nxt of None \<Rightarrow> None | Some v \<Rightarrow> v),
      phase = (case next_phase nxt of None \<Rightarrow> Standby | Some ph \<Rightarrow> ph),
      timestamp = (case next_timestamp nxt of None \<Rightarrow> now | Some t \<Rightarrow> t)\<rparr>"

text \<open>
  \<open>schedule\<close> from the test of \<open>next.cancel\<close> to \<open>await pending.promise\<close>, where the call is
  suspended.
\<close>

definition transition :: "int \<Rightarrow> 'a partial_state \<Rightarrow> 'a poll \<Rightarrow> 'a poll" where
  "transition now nxt p =
     (if (case cancel nxt of None \<Rightarrow> False | Some c \<Rightarrow> c (p_state p)) then p
      else
        let last0 = p_state p;
            pending = p_tick p;
            scheduled = Suc (p_tick p);
            st = new_state now nxt (p_frequency p)
        in p\<lparr>p_state := st,
              p_tick := scheduled,
              timers := clear_schedule last0 (p_timeout p) (timers p),
              ticked := ticked p @ [st],
              promises := resolve pending (promises p),
              tasks := tasks p @ [AwaitPending pending scheduled st]\<rparr>)"

text \<open>\<open>schedule\<close> up to its first suspension.\<close>

definition schedule :: "int \<Rightarrow> 'a partial_state \<Rightarrow> 'a poll \<Rightarrow> 'a poll" where
  "schedule now nxt p =
     (if isDisposed p then p
      else if phase (p_state p) = Constructed
              \<and> next_phase nxt \<noteq> Some WhenRejected \<and> next_phase nxt \<noteq> Some WhenResolved
        then p\<lparr>tasks := tasks p @ [AwaitTick (p_tick p) nxt]\<rparr>
      else transition now nxt p)"

text \<open>The end of \<open>schedule\<close>, after \<open>await pending.promise\<close>: the callback is armed.\<close>

definition arm :: "nat \<Rightarrow> 'a state \<Rightarrow> 'a poll \<Rightarrow> 'a poll" where
  "arm scheduled st p =
     (if strict_eq (interval st) IMMEDIATE
        then p\<lparr>p_timeout := next_frame p,
               timers := timers p @ [Callback AnimationFrame (next_frame p) (Num 0) scheduled],
               next_frame := next_frame p + 1\<rparr>
      else if strict_eq (interval st) NEVER
        then p\<lparr>p_timeout := - 1\<rparr>
      else p\<lparr>p_timeout := next_timeout p,
             timers := timers p @ [Callback Timeout (next_timeout p) (interval st) scheduled],
             next_timeout := next_timeout p + 1\<rparr>)"

text \<open>
  A suspended call goes on once the promise it awaits is settled. If that promise was
  rejected the \<open>await\<close> throws and the call ends there.
\<close>

definition resume :: "nat \<Rightarrow> int \<Rightarrow> 'a poll \<Rightarrow> 'a poll" where
  "resume k now p =
     (if length (tasks p) \<le> k then p
      else case tasks p ! k of
        AwaitTick t nxt \<Rightarrow>
          (case promises p t of
             Unsettled \<Rightarrow> p
           | Fulfilled \<Rightarrow> transition now nxt (p\<lparr>tasks := remove_nth k (tasks p)\<rparr>)
           | Failed e \<Rightarrow> p\<lparr>tasks := remove_nth k (tasks p)\<rparr>)
      | AwaitPending pending scheduled st \<Rightarrow>
          (case promises p pending of
             Unsettled \<Rightarrow> p
           | Fulfilled \<Rightarrow> arm scheduled st (p\<lparr>tasks := remove_nth k (tasks p)\<rparr>)
           | Failed e \<Rightarrow> p\<lparr>tasks := remove_nth k (tasks p)\<rparr>))"

subsection \<open>The public operations\<close>

definition refresh_next :: "'a partial_state" where
  "refresh_next = \<lparr>cancel = Some (\<lambda>last0. phase last0 = Refreshed), next_interval = Some IMMEDIATE,
     next_payload = None, next_phase = Some Refreshed, next_timestamp = None\<rparr>"

definition start_next :: "'a partial_state" where
  "start_next = \<lparr>cancel = Some (\<lambda>last0. phase last0 \<noteq> Standby \<and> phase last0 \<noteq> Stopped),
     next_interval = Some IMMEDIATE, next_payload = None, next_phase = Some Started,
     next_timestamp = None\<rparr>"

definition stop_next :: "'a partial_state" where
  "stop_next = \<lparr>cancel = Some (\<lambda>last0. phase last0 = Stopped), next_interval = Some NEVER,
     next_payload = None, next_phase = Some Stopped, next_timestamp = None\<rparr>"

definition refresh :: "int \<Rightarrow> 'a poll \<Rightarrow> 'a poll" where
  "refresh now p = schedule now refresh_next p"

definition start :: "int \<Rightarrow> 'a poll \<Rightarrow> 'a poll" where
  "start now p = schedule now start_next p"

definition stop :: "int \<Rightarrow> 'a poll \<Rightarrow> 'a poll" where
  "stop now p = schedule now stop_next p"

subsection \<open>Execution\<close>

text \<open>The two assignments to \<open>standby\<close> at the head of \<open>_execute\<close>.\<close>

definition resolve_standby :: "standby_option \<Rightarrow> host \<Rightarrow> bool" where
  "resolve_standby s h =
     (let v = (case s of Function \<Rightarrow> standby_returns h | Literal l \<Rightarrow> Lit l)
      in if v = Lit Never then False
         else if v = Lit WhenHidden then document_hidden h
         else True)"

definition empty_next :: "'a partial_state" where
  "empty_next = \<lparr>cancel = None, next_interval = None, next_payload = None, next_phase = None,
     next_timestamp = None\<rparr>"

text \<open>\<open>_execute\<close>, up to the call of the factory.\<close>

definition execute :: "host \<Rightarrow> int \<Rightarrow> 'a poll \<Rightarrow> 'a poll" where
  "execute h now p =
     (if resolve_standby (p_standby p) h then schedule now empty_next p
      else p\<lparr>requests := requests p @ [p_tick p],
             factory_calls := factory_calls p @ [p_state p]\<rparr>)"

text \<open>The closure \<open>execute\<close> of \<open>schedule\<close>, for the promise \<open>scheduled\<close>.\<close>

definition execute_callback :: "nat \<Rightarrow> host \<Rightarrow> int \<Rightarrow> 'a poll \<Rightarrow> 'a poll" where
  "execute_callback scheduled h now p =
     (if isDisposed p \<or> p_tick p \<noteq> scheduled then p else execute h now p)"

text \<open>
  The two handlers attached to the factory's promise, for the captured tick promise
  \<open>pending\<close>.
\<close>

definition settled :: "nat \<Rightarrow> 'a outcome \<Rightarrow> int \<Rightarrow> real \<Rightarrow> 'a poll \<Rightarrow> 'a poll" where
  "settled pending out now rnd p =
     (case out of
        Resolves v \<Rightarrow>
          if isDisposed p \<or> p_tick p \<noteq> pending then p
          else schedule now
                 \<lparr>cancel = None, next_interval = None, next_payload = Some v,
                  next_phase = Some (if phase (p_state p) = Rejected then Reconnected else Resolved),
                  next_timestamp = None\<rparr> p
      | Rejects e \<Rightarrow>
          if isDisposed p \<or> p_tick p \<noteq> pending then p
          else schedule now
                 \<lparr>cancel = None, next_interval = Some (sleep rnd (p_frequency p) (p_state p)),
                  next_payload = Some e, next_phase = Some Rejected, next_timestamp = None\<rparr> p)"

text \<open>The two handlers attached to \<open>when\<close> in the constructor.\<close>

definition when_settled :: "bool \<Rightarrow> int \<Rightarrow> 'a poll \<Rightarrow> 'a poll" where
  "when_settled ok now p =
     (if isDisposed p then p
      else schedule now
             \<lparr>cancel = None, next_interval = Some IMMEDIATE, next_payload = None,
              next_phase = Some (if ok then WhenResolved else WhenRejected),
              next_timestamp = None\<rparr> p)"

subsection \<open>Events\<close>

text \<open>
  Everything that runs is one of these events, each with the time the clock shows: a call
  of a public operation, an assignment to a property, the settling of \<open>when\<close>, a suspended
  call of \<open>schedule\<close> going on, an armed callback firing, a factory promise settling (with
  the value \<open>Math.random\<close> returns). The events may come in any order; an event that
  cannot happen (no such task, timer or request, a promise not yet settled, \<open>when\<close> already
  settled, a setter that throws) leaves the poll as it is. A listener of \<open>ticked\<close> or
  \<open>disposed\<close> that calls the poll is an event of its own, after the call that emitted.
  A factory that throws instead of returning a promise is not modelled; neither is the
  time a timer waits: an armed callback may fire at any moment.
\<close>

datatype 'a event =
    Refresh int
  | Start int
  | Stop int
  | Dispose int
  | SetFrequency frequency
  | SetStandby standby_option
  | WhenSettled bool int
  | Resume nat int
  | Fire nat host int
  | Settle nat "'a outcome" int real

fun exec :: "'a event \<Rightarrow> 'a poll \<Rightarrow> 'a poll" where
  "exec (Refresh now) p = refresh now p"
| "exec (Start now) p = start now p"
| "exec (Stop now) p = stop now p"
| "exec (Dispose now) p = dispose now p"
| "exec (SetFrequency f) p = (case set_frequency f p of Inl e \<Rightarrow> p | Inr q \<Rightarrow> q)"
| "exec (SetStandby s) p = set_standby s p"
| "exec (WhenSettled ok now) p =
     (if when_unsettled p then when_settled ok now (p\<lparr>when_unsettled := False\<rparr>) else p)"
| "exec (Resume k now) p = resume k now p"
| "exec (Fire k h now) p =
     (if length (timers p) \<le> k then p
      else execute_callback (cb_tick (timers p ! k)) h now (p\<lparr>timers := remove_nth k (timers p)\<rparr>))"
| "exec (Settle k out now rnd) p =
     (if length (requests p) \<le> k then p
      else settled (requests p ! k) out now rnd (p\<lparr>requests := remove_nth k (requests p)\<rparr>))"

text \<open>\<open>Math.random\<close> returns a value in \<open>[0, 1)\<close>.\<close>

fun possible :: "'a event \<Rightarrow> bool" where
  "possible (Settle k out now rnd) = (0 \<le> rnd \<and> rnd < 1)"
| "possible _ = True"

definition run :: "'a event list \<Rightarrow> 'a poll \<Rightarrow> 'a poll" where
  "run es p = foldl (\<lambda>q e. exec e q) p es"

inductive reachable :: "'a poll \<Rightarrow> bool" where
  constructed: "construct opts now = Inr p \<Longrightarrow> reachable p"
| event: "reachable p \<Longrightarrow> possible e \<Longrightarrow> reachable (exec e p)"

section \<open>Invariants of the reachable polls\<close>

text \<open>
  What every argument of \<open>schedule\<close> in the source satisfies: a payload comes only with
  one of the three phases of a settled factory promise, the phase is never
  \<open>constructed\<close>, and the phase \<open>stopped\<close> comes with the interval \<open>NEVER\<close>.
\<close>

definition next_wf :: "'a partial_state \<Rightarrow> bool" where
  "next_wf n =
     ((next_payload n = None \<or> next_payload n = Some None
        \<or> next_phase n = Some Resolved \<or> next_phase n = Some Rejected
        \<or> next_phase n = Some Reconnected)
      \<and> next_phase n \<noteq> Some Constructed
      \<and> (next_phase n = Some Stopped \<longrightarrow> next_interval n = Some NEVER))"

fun task_wf :: "'a task \<Rightarrow> bool" where
  "task_wf (AwaitTick t n) = next_wf n"
| "task_wf (AwaitPending pd sc st) = True"

fun at_gate :: "'a task \<Rightarrow> bool" where
  "at_gate (AwaitTick t n) = True"
| "at_gate (AwaitPending pd sc st) = False"

text \<open>
  The shape of the state: the payload, the interval of a stopped poll, nothing armed or
  requested before the first transition, and the last emission of \<open>ticked\<close>.
\<close>

definition inv_state :: "'a poll \<Rightarrow> bool" where
  "inv_state p =
     ((\<forall>t \<in> set (tasks p). task_wf t)
      \<and> (payload (p_state p) = None \<or> phase (p_state p) = Resolved
           \<or> phase (p_state p) = Rejected \<or> phase (p_state p) = Reconnected)
      \<and> (phase (p_state p) = Stopped \<longrightarrow> interval (p_state p) = NEVER)
      \<and> (phase (p_state p) = Constructed \<longrightarrow>
            timers p = [] \<and> requests p = [] \<and> (\<forall>t \<in> set (tasks p). at_gate t))
      \<and> (phase (p_state p) \<noteq> Constructed \<and> phase (p_state p) \<noteq> Disposed \<longrightarrow>
            ticked p \<noteq> [] \<and> last (ticked p) = p_state p))"

text \<open>
  No armed callback and no suspended call is ahead of \<open>_tick\<close>; one that holds the
  current tick promise belongs to the current state, unless the poll is disposed.
\<close>

fun task_stale :: "nat \<Rightarrow> 'a state \<Rightarrow> 'a task \<Rightarrow> bool" where
  "task_stale tick s (AwaitPending pd sc st) =
     (sc \<le> tick \<and> (sc = tick \<longrightarrow> phase s = Disposed \<or> st = s))"
| "task_stale tick s (AwaitTick t n) = True"

definition inv_stale :: "'a poll \<Rightarrow> bool" where
  "inv_stale p =
     ((\<forall>c \<in> set (timers p). cb_tick c \<le> p_tick p
          \<and> (cb_tick c = p_tick p \<longrightarrow> isDisposed p \<or> interval (p_state p) \<noteq> NEVER))
      \<and> (\<forall>t \<in> set (tasks p). task_stale (p_tick p) (p_state p) t))"

text \<open>The current tick promise of a poll that is not disposed is unsettled.\<close>

definition inv_promises :: "'a poll \<Rightarrow> bool" where
  "inv_promises p =
     ((\<forall>i. p_tick p < i \<longrightarrow> promises p i = Unsettled)
      \<and> (\<not> isDisposed p \<longrightarrow> promises p (p_tick p) = Unsettled))"

text \<open>
  From one poll to a later one the number of the tick promise does not decrease, and
  while it stays the same a disposed poll stays disposed.
\<close>

definition later :: "'a poll \<Rightarrow> 'a poll \<Rightarrow> bool" where
  "later p q = ((p_tick q = p_tick p \<and> (isDisposed p \<longrightarrow> isDisposed q)) \<or> p_tick p < p_tick q)"

section \<open>Example polls\<close>

definition default_options :: options where
  "default_options =
     \<lparr>o_backoff = None, o_interval = None, o_max = None, o_name = None, o_standby = None\<rparr>"

definition poll0 :: "string poll" where
  "poll0 = (case construct default_options 0 of Inr p \<Rightarrow> p)"

definition visible :: host where
  "visible = \<lparr>standby_returns = Bool False, document_hidden = False\<rparr>"

text \<open>The poll after \<open>when\<close> has resolved and the first callback is armed.\<close>

definition armed_poll :: "string poll" where
  "armed_poll = run [WhenSettled True 1, Resume 0 2] poll0"

text \<open>The first callback has fired and the factory's promise is outstanding.\<close>

definition polling_poll :: "string poll" where
  "polling_poll = run [Fire 0 visible 3] armed_poll"

text \<open>A refresh has superseded the tick of the outstanding factory promise.\<close>

definition superseded_poll :: "string poll" where
  "superseded_poll = run [Refresh 4] polling_poll"

text \<open>The factory has rejected once and has been called again.\<close>

definition rejected_poll :: "string poll" where
  "rejected_poll =
     run [Settle 0 (Rejects (Some ''fail'')) 4 (1 / 2), Resume 0 5, Fire 0 visible 6] polling_poll"

text \<open>\<open>when\<close> has resolved and the call of \<open>schedule\<close> is suspended before it arms.\<close>

definition scheduled_poll :: "string poll" where
  "scheduled_poll = run [WhenSettled True 1] poll0"

definition stopped_poll :: "string poll" where
  "stopped_poll = run [Stop 5] armed_poll"

text \<open>
  A \<open>refresh\<close> made before \<open>when\<close> resolves is suspended; \<open>when\<close> resolves; the poll is
  disposed before the suspended call goes on.
\<close>

definition disposed_early_poll :: "string poll" where
  "disposed_early_poll = run [Refresh 1, WhenSettled True 2, Dispose 3] poll0"

text \<open>The suspended call has gone on.\<close>

definition revived_poll :: "string poll" where
  "revived_poll = run [Resume 0 4] disposed_early_poll"

text \<open>
  \<open>refresh\<close>, \<open>stop\<close> and \<open>start\<close> called one after the other, then the three calls of
  \<open>schedule\<close> going on in that order: two callbacks are armed, the one of the refresh
  and the one of the start.
\<close>

definition twice_armed_poll :: "string poll" where
  "twice_armed_poll =
     run [Refresh 3, Stop 4, Start 5, Resume 0 6, Resume 0 7, Resume 0 8] armed_poll"

section \<open>Preservation of the invariants\<close>

lemma set_remove_nth: "set (remove_nth k xs) \<subseteq> set xs"
  unfolding remove_nth_def using set_take_subset [of k xs] set_drop_subset [of "Suc k" xs] by auto

lemma in_remove_nth: "x \<in> set (remove_nth k xs) \<Longrightarrow> x \<in> set xs"
  using set_remove_nth by fastforce

lemma set_clear_schedule: "c \<in> set (clear_schedule l h cbs) \<Longrightarrow> c \<in> set cbs"
  by (simp add: clear_schedule_def Let_def)

subsection \<open>inv_stale\<close>

lemma task_stale_Suc: "task_stale tick s t \<Longrightarrow> task_stale (Suc tick) s' t"
  by (cases t) auto

lemma task_stale_disposed: "task_stale tick s t \<Longrightarrow> phase s' = Disposed \<Longrightarrow> task_stale tick s' t"
  by (cases t) auto

lemma inv_stale_transition: "inv_stale p \<Longrightarrow> inv_stale (transition now n p)"
  unfolding inv_stale_def transition_def Let_def isDisposed_def
  by (auto dest!: set_clear_schedule intro: task_stale_Suc; fastforce)

lemma inv_stale_schedule: "inv_stale p \<Longrightarrow> inv_stale (schedule now n p)"
  unfolding schedule_def
  by (auto simp: inv_stale_transition) (auto simp: inv_stale_def isDisposed_def)

lemma inv_stale_dispose: "inv_stale p \<Longrightarrow> inv_stale (dispose now p)"
  unfolding dispose_def inv_stale_def isDisposed_def DISPOSED_STATE_def
  by (auto intro: task_stale_disposed)

lemma inv_stale_arm:
  assumes "inv_stale p" "AwaitPending pd sc st \<in> set (tasks p)"
  shows "inv_stale (arm sc st (p\<lparr>tasks := remove_nth k (tasks p)\<rparr>))"
proof -
  from assms have "task_stale (p_tick p) (p_state p) (AwaitPending pd sc st)"
    unfolding inv_stale_def by blast
  then have sc: "sc \<le> p_tick p" "sc = p_tick p \<Longrightarrow> isDisposed p \<or> st = p_state p"
    by (auto simp: isDisposed_def)
  have imm: "strict_eq (interval st) IMMEDIATE \<Longrightarrow> interval st \<noteq> NEVER"
    by (auto simp: strict_eq_def IMMEDIATE_def NEVER_def)
  have nev: "\<not> strict_eq (interval st) NEVER \<Longrightarrow> interval st \<noteq> NEVER"
    by (auto simp: strict_eq_def NEVER_def)
  show ?thesis
    using sc imm nev assms(1)
    unfolding inv_stale_def arm_def isDisposed_def by (auto dest: in_remove_nth)
qed

lemma inv_stale_tasks_update:
  "inv_stale p \<Longrightarrow> inv_stale (p\<lparr>tasks := remove_nth k (tasks p)\<rparr>)"
  unfolding inv_stale_def isDisposed_def by (auto dest: in_remove_nth)

lemma inv_stale_resume: "inv_stale p \<Longrightarrow> inv_stale (resume k now p)"
proof (cases "length (tasks p) \<le> k")
  case True
  assume "inv_stale p"
  then show ?thesis using True by (simp add: resume_def)
next
  case False
  assume i: "inv_stale p"
  from False have m: "tasks p ! k \<in> set (tasks p)" by simp
  show ?thesis
  proof (cases "tasks p ! k")
    case (AwaitTick t n)
    then show ?thesis using i False
      by (auto simp: resume_def split: settlement.splits
          intro!: inv_stale_transition inv_stale_tasks_update)
  next
    case (AwaitPending pd sc st)
    then show ?thesis using i False m
      by (auto simp: resume_def split: settlement.splits
          intro!: inv_stale_arm inv_stale_tasks_update)
  qed
qed

lemma inv_stale_execute: "inv_stale p \<Longrightarrow> inv_stale (execute h now p)"
  unfolding execute_def
  by (auto simp: inv_stale_schedule) (auto simp: inv_stale_def isDisposed_def)

lemma inv_stale_timers_update:
  "inv_stale p \<Longrightarrow> inv_stale (p\<lparr>timers := remove_nth k (timers p)\<rparr>)"
  unfolding inv_stale_def isDisposed_def by (auto dest: in_remove_nth)

lemma inv_stale_requests_update: "inv_stale (p\<lparr>requests := r\<rparr>) = inv_stale p"
  unfolding inv_stale_def isDisposed_def by simp

lemma inv_stale_when_update: "inv_stale (p\<lparr>when_unsettled := r\<rparr>) = inv_stale p"
  unfolding inv_stale_def isDisposed_def by simp

lemma inv_stale_settled: "inv_stale p \<Longrightarrow> inv_stale (settled pd out now rnd p)"
  unfolding settled_def by (auto split: outcome.splits simp: inv_stale_schedule)

lemma inv_stale_set_frequency: "inv_stale p \<Longrightarrow> set_frequency f p = Inr q \<Longrightarrow> inv_stale q"
  unfolding set_frequency_def
  by (auto split: if_splits sum.splits simp: inv_stale_def isDisposed_def)

lemma inv_stale_exec: "inv_stale p \<Longrightarrow> inv_stale (exec e p)"
proof (cases e)
  case (SetFrequency f)
  assume "inv_stale p"
  then show ?thesis using SetFrequency
    by (auto split: sum.splits dest: inv_stale_set_frequency)
next
  case (SetStandby s)
  assume "inv_stale p"
  then show ?thesis using SetStandby
    by (auto simp: set_standby_def inv_stale_def isDisposed_def)
next
  case (WhenSettled ok now)
  assume "inv_stale p"
  then show ?thesis using WhenSettled
    by (auto simp: when_settled_def inv_stale_when_update intro!: inv_stale_schedule)
next
  case (Fire k h now)
  assume "inv_stale p"
  then show ?thesis using Fire
    by (auto simp: execute_callback_def intro!: inv_stale_execute inv_stale_timers_update)
next
  case (Settle k out now rnd)
  assume "inv_stale p"
  then show ?thesis using Settle
    by (auto simp: inv_stale_requests_update intro!: inv_stale_settled)
qed (auto simp: refresh_def start_def stop_def inv_stale_schedule inv_stale_dispose inv_stale_resume)

lemma inv_stale_construct: "construct opts now = Inr p \<Longrightarrow> inv_stale p"
  unfolding construct_def by (auto split: sum.splits simp: inv_stale_def)

lemma reachable_inv_stale: "reachable p \<Longrightarrow> inv_stale p"
  by (induction rule: reachable.induct) (auto simp: inv_stale_construct inv_stale_exec)

subsection \<open>inv_state\<close>

lemma new_state_wf:
  assumes "next_wf n"
  shows "payload (new_state now n f) = None \<or> phase (new_state now n f) = Resolved
           \<or> phase (new_state now n f) = Rejected \<or> phase (new_state now n f) = Reconnected"
    and "phase (new_state now n f) = Stopped \<longrightarrow> interval (new_state now n f) = NEVER"
    and "phase (new_state now n f) \<noteq> Constructed"
  using assms unfolding next_wf_def new_state_def
  by (auto split: option.splits)

lemma inv_state_transition:
  assumes "inv_state p" "next_wf n"
  shows "inv_state (transition now n p)"
proof (cases "case cancel n of None \<Rightarrow> False | Some c \<Rightarrow> c (p_state p)")
  case True
  then show ?thesis using assms(1) by (simp add: transition_def)
next
  case False
  from assms(1) have t: "\<forall>t \<in> set (tasks p). task_wf t" unfolding inv_state_def by blast
  show ?thesis
    using False t new_state_wf [OF assms(2), of now "p_frequency p"]
    unfolding inv_state_def transition_def Let_def
    by simp
qed

lemma inv_state_schedule: "inv_state p \<Longrightarrow> next_wf n \<Longrightarrow> inv_state (schedule now n p)"
  unfolding schedule_def
  by (auto simp: inv_state_transition) (auto simp: inv_state_def)

lemma inv_state_dispose: "inv_state p \<Longrightarrow> inv_state (dispose now p)"
  unfolding dispose_def inv_state_def DISPOSED_STATE_def by auto

lemma inv_state_tasks_update:
  "inv_state p \<Longrightarrow> inv_state (p\<lparr>tasks := remove_nth k (tasks p)\<rparr>)"
  unfolding inv_state_def by (auto dest: in_remove_nth)

lemma inv_state_arm:
  assumes "inv_state p" "AwaitPending pd sc st \<in> set (tasks p)"
  shows "inv_state (arm sc' st' (p\<lparr>tasks := remove_nth k (tasks p)\<rparr>))"
proof -
  from assms have "phase (p_state p) \<noteq> Constructed"
    unfolding inv_state_def by force
  then show ?thesis using assms(1)
    unfolding inv_state_def arm_def by (auto dest: in_remove_nth)
qed

lemma inv_state_resume: "inv_state p \<Longrightarrow> inv_state (resume k now p)"
proof (cases "length (tasks p) \<le> k")
  case True
  assume "inv_state p"
  then show ?thesis using True by (simp add: resume_def)
next
  case False
  assume i: "inv_state p"
  from False have m: "tasks p ! k \<in> set (tasks p)" by simp
  show ?thesis
  proof (cases "tasks p ! k")
    case (AwaitTick t n)
    with i m have "next_wf n" unfolding inv_state_def by force
    then show ?thesis using i False AwaitTick
      by (auto simp: resume_def split: settlement.splits
          intro!: inv_state_transition inv_state_tasks_update)
  next
    case (AwaitPending pd sc st)
    then show ?thesis using i False m
      by (auto simp: resume_def split: settlement.splits
          intro!: inv_state_arm inv_state_tasks_update)
  qed
qed

lemma next_wf_empty: "next_wf empty_next"
  by (simp add: next_wf_def empty_next_def)

lemma inv_state_execute:
  "inv_state p \<Longrightarrow> phase (p_state p) \<noteq> Constructed \<Longrightarrow> inv_state (execute h now p)"
  unfolding execute_def
  by (auto simp: inv_state_schedule next_wf_empty) (auto simp: inv_state_def)

lemma inv_state_fire:
  assumes "inv_state p"
  shows "inv_state (exec (Fire k h now) p)"
proof (cases "length (timers p) \<le> k")
  case True
  then show ?thesis using assms by simp
next
  case False
  then have "timers p \<noteq> []" by auto
  with assms have c: "phase (p_state p) \<noteq> Constructed" unfolding inv_state_def by auto
  from assms c have "inv_state (p\<lparr>timers := remove_nth k (timers p)\<rparr>)"
    unfolding inv_state_def by auto
  then show ?thesis using False c
    by (auto simp: execute_callback_def intro!: inv_state_execute)
qed

lemma inv_state_settled: "inv_state p \<Longrightarrow> inv_state (settled pd out now rnd p)"
  unfolding settled_def
  by (auto split: outcome.splits intro!: inv_state_schedule simp: next_wf_def)

lemma inv_state_settle:
  assumes "inv_state p"
  shows "inv_state (exec (Settle k out now rnd) p)"
proof (cases "length (requests p) \<le> k")
  case True
  then show ?thesis using assms by simp
next
  case False
  then have "requests p \<noteq> []" by auto
  with assms have c: "phase (p_state p) \<noteq> Constructed" unfolding inv_state_def by auto
  from assms c have "inv_state (p\<lparr>requests := remove_nth k (requests p)\<rparr>)"
    unfolding inv_state_def by auto
  then show ?thesis using False
    by (auto intro!: inv_state_settled)
qed

lemma inv_state_when_update: "inv_state (p\<lparr>when_unsettled := r\<rparr>) = inv_state p"
  unfolding inv_state_def by simp

lemma inv_state_set_frequency: "inv_state p \<Longrightarrow> set_frequency f p = Inr q \<Longrightarrow> inv_state q"
  unfolding set_frequency_def
  by (auto split: if_splits sum.splits simp: inv_state_def)

lemma next_wf_public: "next_wf refresh_next" "next_wf start_next" "next_wf stop_next"
  by (simp_all add: next_wf_def refresh_next_def start_next_def stop_next_def)

lemma inv_state_exec: "inv_state p \<Longrightarrow> inv_state (exec e p)"
proof (cases e)
  case (SetFrequency f)
  assume "inv_state p"
  then show ?thesis using SetFrequency
    by (auto split: sum.splits dest: inv_state_set_frequency)
next
  case (SetStandby s)
  assume "inv_state p"
  then show ?thesis using SetStandby
    by (auto simp: set_standby_def inv_state_def)
next
  case (WhenSettled ok now)
  assume "inv_state p"
  then show ?thesis using WhenSettled
    by (auto simp: when_settled_def inv_state_when_update next_wf_def intro!: inv_state_schedule)
next
  case (Fire k h now)
  assume "inv_state p"
  then show ?thesis using Fire inv_state_fire by blast
next
  case (Settle k out now rnd)
  assume "inv_state p"
  then show ?thesis using Settle inv_state_settle by blast
qed (auto simp: refresh_def start_def stop_def inv_state_schedule next_wf_public
       inv_state_dispose inv_state_resume)

lemma inv_state_construct: "construct opts now = Inr p \<Longrightarrow> inv_state p"
  unfolding construct_def
  by (auto split: sum.splits simp: inv_state_def DEFAULT_STATE_def)

lemma reachable_inv_state: "reachable p \<Longrightarrow> inv_state p"
  by (induction rule: reachable.induct) (auto simp: inv_state_construct inv_state_exec)

subsection \<open>inv_promises\<close>

lemma resolve_other: "i \<noteq> t \<Longrightarrow> resolve t ps i = ps i"
  by (simp add: resolve_def)

lemma reject_other: "i \<noteq> t \<Longrightarrow> reject t e ps i = ps i"
  by (simp add: reject_def)

lemma inv_promises_transition:
  assumes "inv_promises p"
  shows "inv_promises (transition now n p)"
proof (cases "case cancel n of None \<Rightarrow> False | Some c \<Rightarrow> c (p_state p)")
  case True
  then show ?thesis using assms by (simp add: transition_def)
next
  case False
  from assms have a: "\<And>i. p_tick p < i \<Longrightarrow> promises p i = Unsettled"
    unfolding inv_promises_def by blast
  show ?thesis
    using False a
    unfolding inv_promises_def transition_def Let_def
    by (simp add: resolve_other)
qed

lemma inv_promises_updates:
  "inv_promises (p\<lparr>tasks := ts\<rparr>) = inv_promises p"
  "inv_promises (p\<lparr>timers := cs\<rparr>) = inv_promises p"
  "inv_promises (p\<lparr>requests := rs\<rparr>) = inv_promises p"
  "inv_promises (p\<lparr>when_unsettled := w\<rparr>) = inv_promises p"
  "inv_promises (p\<lparr>p_frequency := f\<rparr>) = inv_promises p"
  "inv_promises (p\<lparr>p_standby := sb\<rparr>) = inv_promises p"
  "inv_promises (p\<lparr>factory_calls := fc\<rparr>) = inv_promises p"
  unfolding inv_promises_def isDisposed_def by simp_all

lemma inv_promises_schedule: "inv_promises p \<Longrightarrow> inv_promises (schedule now n p)"
  unfolding schedule_def
  by (simp add: inv_promises_transition inv_promises_updates)

lemma inv_promises_dispose: "inv_promises p \<Longrightarrow> inv_promises (dispose now p)"
  unfolding dispose_def inv_promises_def isDisposed_def DISPOSED_STATE_def
  by (simp add: reject_other)

lemma inv_promises_arm: "inv_promises (arm sc st p) = inv_promises p"
  unfolding inv_promises_def isDisposed_def arm_def by simp

lemma inv_promises_resume: "inv_promises p \<Longrightarrow> inv_promises (resume k now p)"
  unfolding resume_def
  by (simp add: inv_promises_arm inv_promises_updates inv_promises_transition
      split: task.splits settlement.splits)

lemma inv_promises_execute: "inv_promises p \<Longrightarrow> inv_promises (execute h now p)"
  unfolding execute_def
  by (simp add: inv_promises_schedule inv_promises_updates)

lemma inv_promises_settled: "inv_promises p \<Longrightarrow> inv_promises (settled pd out now rnd p)"
  unfolding settled_def by (simp split: outcome.splits add: inv_promises_schedule)

lemma inv_promises_exec: "inv_promises p \<Longrightarrow> inv_promises (exec e p)"
  by (cases e)
    (simp_all add: refresh_def start_def stop_def inv_promises_schedule inv_promises_dispose
      inv_promises_resume set_frequency_def set_standby_def inv_promises_updates
      when_settled_def execute_callback_def inv_promises_execute inv_promises_settled
      split: sum.splits)

lemma inv_promises_construct: "construct opts now = Inr p \<Longrightarrow> inv_promises p"
  unfolding construct_def by (auto split: sum.splits simp: inv_promises_def)

lemma reachable_inv_promises: "reachable p \<Longrightarrow> inv_promises p"
  by (induction rule: reachable.induct) (auto simp: inv_promises_construct inv_promises_exec)

section \<open>Evaluation of the examples\<close>

lemmas eval_defs = construct_def validate_def default_options_def DEFAULT_FREQUENCY_def
  DEFAULT_NAME_def DEFAULT_STANDBY_def DEFAULT_STATE_def DISPOSED_STATE_def NEVER_def
  IMMEDIATE_def MAX_INTERVAL_def DEFAULT_BACKOFF_def gt_def strict_eq_def isDisposed_def
  resolve_def reject_def remove_nth_def set_frequency_def set_standby_def dispose_def
  clear_schedule_def new_state_def transition_def schedule_def arm_def resume_def
  refresh_next_def start_next_def stop_next_def refresh_def start_def stop_def
  resolve_standby_def empty_next_def execute_def execute_callback_def settled_def
  when_settled_def run_def sleep_def getRandomIntInclusive_def sub_def deepEqual_def
  Let_def poll0_def visible_def armed_poll_def polling_poll_def superseded_poll_def
  rejected_poll_def scheduled_poll_def stopped_poll_def disposed_early_poll_def
  revived_poll_def twice_armed_poll_def

lemma poll0_constructed: "construct default_options 0 = Inr poll0"
  by (simp add: eval_defs)

section \<open>The backoff computation: the first rejection\<close>

text \<open>
  Claim C1 says that \<open>Private.sleep\<close> returns a value in \<open>[interval, max]\<close> for every
  interval of the previous state. The code does not: the tick scheduled when \<open>when\<close>
  settles has the interval \<open>IMMEDIATE\<close>, so at the first rejection of the factory the
  upper end of the draw, \<open>last.interval * growth\<close>, is 0 and lies below the lower end.
  With the default frequency and \<open>Math.random() = 0.5\<close> the result is 500, below the
  interval 1000. The last two conjuncts show a default poll in that state, and the
  rejection that stores the interval 500.
\<close>

theorem sleep_first_rejection_below_interval:
  "sleep (1 / 2) DEFAULT_FREQUENCY
     (\<lparr>interval = IMMEDIATE, payload = None, phase = WhenResolved, timestamp = 1\<rparr> :: string state)
     = Num 500
   \<and> lt (Num 500) (freq_interval DEFAULT_FREQUENCY)
   \<and> p_state polling_poll
       = \<lparr>interval = IMMEDIATE, payload = None, phase = WhenResolved, timestamp = 1\<rparr>
   \<and> p_state (run [Settle 0 (Rejects (Some ''fail'')) 4 (1 / 2)] polling_poll)
       = \<lparr>interval = Num 500, payload = Some ''fail'', phase = Rejected, timestamp = 4\<rparr>"
  by (simp add: eval_defs)

text \<open>
  What the computation does guarantee, for finite values: when the lower end of the draw
  is not above its upper end, the result lies between \<open>interval\<close> and \<open>max\<close>.
\<close>

lemma sleep_within_bounds:
  assumes "0 \<le> rnd" "rnd < 1"
    and "freq_interval f = Num i" "freq_max f = Num m" "i \<le> m"
    and "interval s = Num l"
    and "freq_backoff f = Growth (Num g) \<or> (freq_backoff f = Flag True \<and> g = 3)
         \<or> (freq_backoff f = Flag False \<and> g = 1)"
    and "\<lceil>i\<rceil> \<le> \<lfloor>l * g\<rfloor>"
  shows "\<exists>r. sleep rnd f s = Num r \<and> i \<le> r \<and> r \<le> m"
proof -
  define n where "n = \<lfloor>l * g\<rfloor> - \<lceil>i\<rceil> + 1"
  define d where "d = \<lfloor>rnd * of_int n\<rfloor> + \<lceil>i\<rceil>"
  from assms(8) have n: "1 \<le> n" by (simp add: n_def)
  then have "0 \<le> rnd * of_int n" using assms(1) by simp
  then have "0 \<le> \<lfloor>rnd * of_int n\<rfloor>" by simp
  then have "\<lceil>i\<rceil> \<le> d" by (simp add: d_def)
  then have lo: "i \<le> of_int d" by linarith
  have g: "(case freq_backoff f of Flag True \<Rightarrow> DEFAULT_BACKOFF | Flag False \<Rightarrow> Num 1
            | Growth b \<Rightarrow> b) = Num g"
    using assms(7) by (auto simp: DEFAULT_BACKOFF_def)
  have "getRandomIntInclusive rnd (Num i) (mul (Num l) (Num g)) = Num (of_int d)"
    by (simp add: getRandomIntInclusive_def sub_def d_def n_def algebra_simps)
  then have "sleep rnd f s = Math_min (Num m) (Num (of_int d))"
    by (simp add: sleep_def g assms(3,4,6))
  then have "sleep rnd f s = Num (if of_int d < m then of_int d else m)"
    by simp
  then show ?thesis using lo assms(5) by auto
qed

section \<open>Standby\<close>

text \<open>
  Claim C2 says that the boolean a standby function returns is the standby decision. In
  \<open>_execute\<close> the last branch of the conditional is the constant \<open>true\<close>: a function that
  returns \<open>false\<close> makes the poll stand by. Here the armed callback of a poll whose
  standby option is such a function fires: the factory is not called and the next state
  has the phase \<open>standby\<close>.
\<close>

theorem standby_function_returning_false_stands_by:
  "resolve_standby Function \<lparr>standby_returns = Bool False, document_hidden = False\<rparr> = True
   \<and> (let p = run [SetStandby Function, WhenSettled True 1, Resume 0 2] poll0;
           q = run [Fire 0 \<lparr>standby_returns = Bool False, document_hidden = False\<rparr> 3] p
       in p_standby p = Function \<and> phase (p_state p) = WhenResolved \<and> length (timers p) = 1
          \<and> factory_calls q = [] \<and> requests q = [] \<and> phase (p_state q) = Standby)"
  by (simp add: eval_defs)

text \<open>The resolution in all its cases: the two literals decide, every boolean stands by.\<close>

lemma resolve_standby_cases:
  "resolve_standby (Literal Never) h = False"
  "resolve_standby (Literal WhenHidden) h = document_hidden h"
  "standby_returns h = Lit Never \<Longrightarrow> resolve_standby Function h = False"
  "standby_returns h = Lit WhenHidden \<Longrightarrow> resolve_standby Function h = document_hidden h"
  "standby_returns h = Bool b \<Longrightarrow> resolve_standby Function h = True"
  by (simp_all add: resolve_standby_def)

section \<open>Settlements of the factory's promise\<close>

text \<open>
  Claim C5: when a promise of the factory settles, by resolution or by rejection, while
  the poll is disposed or while the tick promise its handlers captured is no longer the
  current one, nothing changes: the poll after the event is the poll before it, less the
  settled promise.
\<close>

theorem stale_settlement_dropped:
  "k < length (requests p) \<Longrightarrow> isDisposed p \<or> p_tick p \<noteq> requests p ! k \<Longrightarrow>
   exec (Settle k out now rnd) p = p\<lparr>requests := remove_nth k (requests p)\<rparr>"
  by (cases out) (auto simp: settled_def isDisposed_def)

theorem stale_settlement_dropped_witness:
  "0 < length (requests superseded_poll)
   \<and> p_tick superseded_poll \<noteq> requests superseded_poll ! 0
   \<and> exec (Settle 0 (Resolves (Some ''late'')) 5 0) superseded_poll
       = superseded_poll\<lparr>requests := remove_nth 0 (requests superseded_poll)\<rparr>"
proof -
  have h1: "0 < length (requests superseded_poll)" by (simp add: eval_defs)
  have h2: "p_tick superseded_poll \<noteq> requests superseded_poll ! 0" by (simp add: eval_defs)
  from h2 have h3: "isDisposed superseded_poll \<or> p_tick superseded_poll \<noteq> requests superseded_poll ! 0"
    by simp
  show ?thesis
    using stale_settlement_dropped [OF h1 h3, of "Resolves (Some ''late'')" 5 0] h1 h2 by simp
qed

section \<open>The payload\<close>

text \<open>
  Claim C9: in every poll reached from the constructor by the public operations, the
  assignments to the two properties and the events of the host, the payload of the state
  is \<open>null\<close> unless the phase is \<open>resolved\<close>, \<open>rejected\<close> or \<open>reconnected\<close>.
\<close>

theorem payload_only_after_settlement:
  "reachable p \<Longrightarrow> payload (p_state p) \<noteq> None \<Longrightarrow>
   phase (p_state p) = Resolved \<or> phase (p_state p) = Rejected \<or> phase (p_state p) = Reconnected"
proof -
  assume "reachable p" and n: "payload (p_state p) \<noteq> None"
  then have "inv_state p" by (simp add: reachable_inv_state)
  then show ?thesis using n by (simp add: inv_state_def)
qed

lemma transition_not_cancelled:
  "\<not> (case cancel n of None \<Rightarrow> False | Some c \<Rightarrow> c (p_state p)) \<Longrightarrow>
   transition now n p =
     p\<lparr>p_state := new_state now n (p_frequency p),
       p_tick := Suc (p_tick p),
       timers := clear_schedule (p_state p) (p_timeout p) (timers p),
       ticked := ticked p @ [new_state now n (p_frequency p)],
       promises := resolve (p_tick p) (promises p),
       tasks := tasks p @ [AwaitPending (p_tick p) (Suc (p_tick p)) (new_state now n (p_frequency p))]\<rparr>"
  by (simp add: transition_def Let_def)

section \<open>A resolved factory promise\<close>

text \<open>
  Claim C6: when a promise of the factory resolves with \<open>v\<close> and the result is not
  dropped (the poll is not disposed and the captured tick promise is still the current
  one), the next state has the payload \<open>v\<close>, the base interval, and the phase
  \<open>reconnected\<close> if the phase at that moment is \<open>rejected\<close>, else \<open>resolved\<close>; it is
  emitted by \<open>ticked\<close>, so that after a rejection the phases emitted end with
  \<open>rejected\<close>, \<open>reconnected\<close>.
\<close>

theorem success_after_rejection_reconnects:
  assumes "reachable p" "k < length (requests p)" "requests p ! k = p_tick p" "\<not> isDisposed p"
  shows "p_state (exec (Settle k (Resolves v) now rnd) p) =
           \<lparr>interval = freq_interval (p_frequency p), payload = v,
            phase = (if phase (p_state p) = Rejected then Reconnected else Resolved),
            timestamp = now\<rparr>
         \<and> ticked (exec (Settle k (Resolves v) now rnd) p) =
             ticked p @ [p_state (exec (Settle k (Resolves v) now rnd) p)]
         \<and> (phase (p_state p) = Rejected \<longrightarrow>
              (\<exists>pre. map phase (ticked (exec (Settle k (Resolves v) now rnd) p)) =
                      pre @ [Rejected, Reconnected]))"
proof -
  define n :: "'a partial_state" where
    "n = \<lparr>cancel = None, next_interval = None, next_payload = Some v,
          next_phase = Some (if phase (p_state p) = Rejected then Reconnected else Resolved),
          next_timestamp = None\<rparr>"
  define q where "q = exec (Settle k (Resolves v) now rnd) p"
  define st where "st = new_state now n (p_frequency p)"
  from assms(1) have i: "inv_state p" by (rule reachable_inv_state)
  from assms(2) have "requests p \<noteq> []" by auto
  with i have c: "phase (p_state p) \<noteq> Constructed" unfolding inv_state_def by auto
  from i c assms(4) have l: "ticked p \<noteq> []" "last (ticked p) = p_state p"
    unfolding inv_state_def isDisposed_def by auto
  have "q = transition now n (p\<lparr>requests := remove_nth k (requests p)\<rparr>)"
    unfolding q_def n_def
    using assms(2,3,4) c by (simp add: settled_def schedule_def isDisposed_def)
  moreover have "\<not> (case cancel n of None \<Rightarrow> False
                          | Some c \<Rightarrow> c (p_state (p\<lparr>requests := remove_nth k (requests p)\<rparr>)))"
    by (simp add: n_def)
  ultimately have s: "p_state q = st" and t: "ticked q = ticked p @ [st]"
    by (simp_all add: transition_not_cancelled st_def)
  have v: "st = \<lparr>interval = freq_interval (p_frequency p), payload = v,
                 phase = (if phase (p_state p) = Rejected then Reconnected else Resolved),
                 timestamp = now\<rparr>"
    by (simp add: st_def n_def new_state_def)
  have m: "\<exists>pre. map phase (ticked q) = pre @ [Rejected, Reconnected]"
    if r: "phase (p_state p) = Rejected"
  proof -
    have e: "butlast (ticked p) @ [p_state p] = ticked p"
      using l append_butlast_last_id [of "ticked p"] by simp
    have "map phase (ticked p) = map phase (butlast (ticked p) @ [p_state p])"
      by (simp only: e)
    then have "map phase (ticked q) = map phase (butlast (ticked p)) @ [Rejected, Reconnected]"
      using r by (simp add: t v)
    then show ?thesis by blast
  qed
  have "p_state q = \<lparr>interval = freq_interval (p_frequency p), payload = v,
                     phase = (if phase (p_state p) = Rejected then Reconnected else Resolved),
                     timestamp = now\<rparr>
        \<and> ticked q = ticked p @ [p_state q]
        \<and> (phase (p_state p) = Rejected \<longrightarrow>
              (\<exists>pre. map phase (ticked q) = pre @ [Rejected, Reconnected]))"
    using s t v m by simp
  then show ?thesis unfolding q_def .
qed

lemma transition_cancelled:
  "(case cancel n of None \<Rightarrow> False | Some c \<Rightarrow> c (p_state p)) \<Longrightarrow> transition now n p = p"
  by (simp add: transition_def)

lemma schedule_active:
  "\<not> isDisposed p \<Longrightarrow> phase (p_state p) \<noteq> Constructed \<Longrightarrow>
   schedule now n p = transition now n p"
  by (simp add: schedule_def)

lemma schedule_disposed: "isDisposed p \<Longrightarrow> schedule now n p = p"
  by (simp add: schedule_def)

lemma refresh_state:
  "new_state now refresh_next f =
     \<lparr>interval = IMMEDIATE, payload = None, phase = Refreshed, timestamp = now\<rparr>"
  by (simp add: new_state_def refresh_next_def)

lemma refresh_cancel:
  "(case cancel refresh_next of None \<Rightarrow> False | Some c \<Rightarrow> c s) = (phase s = Refreshed)"
  by (simp add: refresh_next_def)

lemma refresh_when_refreshed: "phase (p_state q) = Refreshed \<Longrightarrow> refresh now q = q"
  by (simp add: refresh_def schedule_active isDisposed_def transition_cancelled refresh_cancel)

section \<open>refresh\<close>

text \<open>
  Claim C7: of two calls of \<open>refresh\<close> before the scheduled tick fires, only the first
  makes a transition. On a poll that is neither disposed nor waiting for \<open>when\<close> nor
  already refreshed, the first call installs and emits the state \<open>refreshed\<close> with the
  interval \<open>IMMEDIATE\<close>, and the second returns the poll as it is; so does every call
  while the phase is \<open>refreshed\<close>. Before \<open>when\<close> has settled both calls are suspended;
  when they go on, the first makes the transition and the second is cancelled.
\<close>

theorem refresh_twice_one_transition:
  fixes p q :: "'a poll"
  shows "(\<not> isDisposed p \<and> phase (p_state p) \<noteq> Constructed \<and> phase (p_state p) \<noteq> Refreshed \<longrightarrow>
      p_state (refresh n1 p) =
        \<lparr>interval = IMMEDIATE, payload = None, phase = Refreshed, timestamp = n1\<rparr>
      \<and> ticked (refresh n1 p) = ticked p @ [p_state (refresh n1 p)]
      \<and> refresh n2 (refresh n1 p) = refresh n1 p)
   \<and> (phase (p_state q) = Refreshed \<longrightarrow> refresh n2 q = q)
   \<and> (phase (p_state p) = Constructed \<longrightarrow>
        refresh n2 (refresh n1 p) =
          p\<lparr>tasks := tasks p @ [AwaitTick (p_tick p) refresh_next, AwaitTick (p_tick p) refresh_next]\<rparr>)
   \<and> (phase (p_state q) \<noteq> Refreshed \<longrightarrow>
        phase (p_state (transition n1 refresh_next q)) = Refreshed
        \<and> ticked (transition n1 refresh_next q) = ticked q @ [p_state (transition n1 refresh_next q)]
        \<and> transition n2 refresh_next (transition n1 refresh_next q) = transition n1 refresh_next q)"
proof -
  have t: "p_state (transition n1 refresh_next r) =
             \<lparr>interval = IMMEDIATE, payload = None, phase = Refreshed, timestamp = n1\<rparr>
           \<and> phase (p_state (transition n1 refresh_next r)) = Refreshed
           \<and> ticked (transition n1 refresh_next r) = ticked r @ [p_state (transition n1 refresh_next r)]
           \<and> transition n2 refresh_next (transition n1 refresh_next r) = transition n1 refresh_next r"
    if "phase (p_state r) \<noteq> Refreshed" for r :: "'a poll"
  proof -
    from that have "\<not> (case cancel refresh_next of None \<Rightarrow> False | Some c \<Rightarrow> c (p_state r))"
      by (simp add: refresh_cancel)
    then have s: "p_state (transition n1 refresh_next r) =
                   \<lparr>interval = IMMEDIATE, payload = None, phase = Refreshed, timestamp = n1\<rparr>"
      and u: "ticked (transition n1 refresh_next r) =
                ticked r @ [\<lparr>interval = IMMEDIATE, payload = None, phase = Refreshed, timestamp = n1\<rparr>]"
      by (simp_all add: transition_not_cancelled refresh_state)
    from s have "transition n2 refresh_next (transition n1 refresh_next r) = transition n1 refresh_next r"
      by (simp add: transition_cancelled refresh_cancel)
    with s u show ?thesis by simp
  qed
  have a: "p_state (refresh n1 p) =
             \<lparr>interval = IMMEDIATE, payload = None, phase = Refreshed, timestamp = n1\<rparr>
           \<and> ticked (refresh n1 p) = ticked p @ [p_state (refresh n1 p)]
           \<and> refresh n2 (refresh n1 p) = refresh n1 p"
    if "\<not> isDisposed p" "phase (p_state p) \<noteq> Constructed" "phase (p_state p) \<noteq> Refreshed"
  proof -
    from that have e: "refresh n1 p = transition n1 refresh_next p"
      by (simp add: refresh_def schedule_active)
    from t [OF that(3)] have "phase (p_state (transition n1 refresh_next p)) = Refreshed" by simp
    then have "refresh n2 (transition n1 refresh_next p) = transition n1 refresh_next p"
      by (rule refresh_when_refreshed)
    with t [OF that(3)] show ?thesis unfolding e by simp
  qed
  have c: "refresh n2 (refresh n1 p) =
          p\<lparr>tasks := tasks p @ [AwaitTick (p_tick p) refresh_next, AwaitTick (p_tick p) refresh_next]\<rparr>"
    if "phase (p_state p) = Constructed"
    using that by (simp add: refresh_def schedule_def isDisposed_def refresh_next_def)
  show ?thesis using a c t [of q] refresh_when_refreshed [of q n2] by blast
qed

lemma start_state:
  "new_state now start_next f =
     \<lparr>interval = IMMEDIATE, payload = None, phase = Started, timestamp = now\<rparr>"
  by (simp add: new_state_def start_next_def)

lemma start_cancel:
  "(case cancel start_next of None \<Rightarrow> False | Some c \<Rightarrow> c s) = (phase s \<noteq> Standby \<and> phase s \<noteq> Stopped)"
  by (simp add: start_next_def)

section \<open>start\<close>

text \<open>
  Claim C10: \<open>start\<close> makes the transition to \<open>started\<close> only when the phase of the state
  it is evaluated against is \<open>standby\<close> or \<open>stopped\<close>. For every other phase the
  transition is cancelled and the poll stays as it is; before \<open>when\<close> has settled the call
  is suspended, and the same test is made against the state in which it goes on.
\<close>

theorem start_only_from_standby_or_stopped:
  fixes p q :: "'a poll"
  shows "(phase (p_state p) = Standby \<or> phase (p_state p) = Stopped \<longrightarrow>
      p_state (start now p) =
        \<lparr>interval = IMMEDIATE, payload = None, phase = Started, timestamp = now\<rparr>
      \<and> ticked (start now p) = ticked p @ [p_state (start now p)])
   \<and> (phase (p_state p) \<noteq> Standby \<and> phase (p_state p) \<noteq> Stopped
        \<and> phase (p_state p) \<noteq> Constructed \<longrightarrow> start now p = p)
   \<and> (phase (p_state p) = Constructed \<longrightarrow>
        start now p = p\<lparr>tasks := tasks p @ [AwaitTick (p_tick p) start_next]\<rparr>)
   \<and> (phase (p_state q) \<noteq> Standby \<and> phase (p_state q) \<noteq> Stopped \<longrightarrow>
        transition now start_next q = q)
   \<and> (phase (p_state q) = Standby \<or> phase (p_state q) = Stopped \<longrightarrow>
        p_state (transition now start_next q) =
          \<lparr>interval = IMMEDIATE, payload = None, phase = Started, timestamp = now\<rparr>)"
proof -
  have t: "p_state (transition now start_next r) =
             \<lparr>interval = IMMEDIATE, payload = None, phase = Started, timestamp = now\<rparr>
           \<and> ticked (transition now start_next r) = ticked r @ [p_state (transition now start_next r)]"
    if "phase (p_state r) = Standby \<or> phase (p_state r) = Stopped" for r :: "'a poll"
  proof -
    from that have "\<not> (case cancel start_next of None \<Rightarrow> False | Some c \<Rightarrow> c (p_state r))"
      by (auto simp: start_cancel)
    then show ?thesis by (simp add: transition_not_cancelled start_state)
  qed
  have u: "transition now start_next r = r"
    if "phase (p_state r) \<noteq> Standby \<and> phase (p_state r) \<noteq> Stopped" for r :: "'a poll"
    using that by (simp add: transition_cancelled start_cancel)
  have a: "p_state (start now p) =
        \<lparr>interval = IMMEDIATE, payload = None, phase = Started, timestamp = now\<rparr>
      \<and> ticked (start now p) = ticked p @ [p_state (start now p)]"
    if "phase (p_state p) = Standby \<or> phase (p_state p) = Stopped"
  proof -
    from that have "start now p = transition now start_next p"
      by (auto simp: start_def schedule_active isDisposed_def)
    with t [OF that] show ?thesis by simp
  qed
  have b: "start now p = p"
    if "phase (p_state p) \<noteq> Standby \<and> phase (p_state p) \<noteq> Stopped \<and> phase (p_state p) \<noteq> Constructed"
  proof (cases "isDisposed p")
    case True
    then show ?thesis by (simp add: start_def schedule_disposed)
  next
    case False
    with that have "start now p = transition now start_next p"
      by (simp add: start_def schedule_active)
    with u [of p] that show ?thesis by simp
  qed
  have c: "start now p = p\<lparr>tasks := tasks p @ [AwaitTick (p_tick p) start_next]\<rparr>"
    if "phase (p_state p) = Constructed"
    using that by (simp add: start_def schedule_def isDisposed_def start_next_def)
  show ?thesis using a b c t [of q] u [of q] by blast
qed


subsection \<open>The tick promise never comes back\<close>

lemma later_refl: "later p p"
  by (simp add: later_def)

lemma later_trans: "later p q \<Longrightarrow> later q r \<Longrightarrow> later p r"
  unfolding later_def by auto

lemma later_same: "p_tick q = p_tick p \<Longrightarrow> p_state q = p_state p \<Longrightarrow> later p q"
  by (simp add: later_def isDisposed_def)

lemma later_transition: "later p (transition now n p)"
  unfolding transition_def Let_def later_def by simp

lemma later_schedule: "later p (schedule now n p)"
  unfolding schedule_def by (simp add: later_transition later_refl later_same)

lemma later_dispose: "later p (dispose now p)"
  unfolding dispose_def later_def isDisposed_def DISPOSED_STATE_def by simp

lemma later_arm: "later p (arm sc st p)"
  by (rule later_same) (simp_all add: arm_def)

lemma later_resume: "later p (resume k now p)"
proof -
  have u: "later p (p\<lparr>tasks := remove_nth k (tasks p)\<rparr>)"
    by (rule later_same) simp_all
  have "later (p\<lparr>tasks := remove_nth k (tasks p)\<rparr>) (transition now n (p\<lparr>tasks := remove_nth k (tasks p)\<rparr>))" for n
    by (rule later_transition)
  then have t: "later p (transition now n (p\<lparr>tasks := remove_nth k (tasks p)\<rparr>))" for n
    using u later_trans by blast
  have "later (p\<lparr>tasks := remove_nth k (tasks p)\<rparr>) (arm sc st (p\<lparr>tasks := remove_nth k (tasks p)\<rparr>))" for sc st
    by (rule later_arm)
  then have a: "later p (arm sc st (p\<lparr>tasks := remove_nth k (tasks p)\<rparr>))" for sc st
    using u later_trans by blast
  show ?thesis
    unfolding resume_def
    by (simp add: later_refl u t a split: task.splits settlement.splits)
qed

lemma later_execute: "later p (execute h now p)"
  unfolding execute_def by (simp add: later_schedule later_same)

lemma later_settled: "later p (settled pd out now rnd p)"
  unfolding settled_def by (simp add: later_schedule later_refl split: outcome.splits)

lemma later_exec: "later p (exec e p)"
proof (cases e)
  case (SetFrequency f)
  then show ?thesis
    by (auto simp: set_frequency_def later_refl later_same split: sum.splits)
next
  case (SetStandby s)
  then show ?thesis by (simp add: set_standby_def later_refl later_same)
next
  case (WhenSettled ok now)
  have "later p (p\<lparr>when_unsettled := False\<rparr>)" by (rule later_same) simp_all
  moreover have "later (p\<lparr>when_unsettled := False\<rparr>) (when_settled ok now (p\<lparr>when_unsettled := False\<rparr>))"
    unfolding when_settled_def by (simp add: later_refl later_schedule)
  ultimately show ?thesis using WhenSettled later_trans by (auto simp: later_refl)
next
  case (Fire k h now)
  have "later p (p\<lparr>timers := remove_nth k (timers p)\<rparr>)" by (rule later_same) simp_all
  moreover have "later (p\<lparr>timers := remove_nth k (timers p)\<rparr>)
      (execute_callback t h now (p\<lparr>timers := remove_nth k (timers p)\<rparr>))" for t
    unfolding execute_callback_def by (simp add: later_refl later_execute)
  ultimately show ?thesis using Fire later_trans by (auto simp: later_refl)
next
  case (Settle k out now rnd)
  have "later p (p\<lparr>requests := remove_nth k (requests p)\<rparr>)" by (rule later_same) simp_all
  moreover have "later (p\<lparr>requests := remove_nth k (requests p)\<rparr>)
      (settled t out now rnd (p\<lparr>requests := remove_nth k (requests p)\<rparr>))" for t
    by (rule later_settled)
  ultimately show ?thesis using Settle later_trans by (auto simp: later_refl)
qed (simp_all add: refresh_def start_def stop_def later_schedule later_dispose later_resume)

lemma run_Cons: "run (e # es) p = run es (exec e p)"
  by (simp add: run_def)

lemma run_Nil: "run [] p = p"
  by (simp add: run_def)

lemma later_run: "later p (run es p)"
proof (induction es arbitrary: p)
  case Nil
  then show ?case by (simp add: run_Nil later_refl)
next
  case (Cons e es)
  have "later p (exec e p)" by (rule later_exec)
  moreover have "later (exec e p) (run es (exec e p))" by (rule Cons.IH)
  ultimately show ?case unfolding run_Cons by (rule later_trans)
qed

section \<open>Callbacks armed before stop and dispose\<close>

text \<open>
  After \<open>stop\<close> or \<open>dispose\<close>, whatever happens next, a callback that was armed before
  the call fails the test at its head if it runs, and returns at once: the poll after
  it is the poll before it, less the callback.
\<close>

lemma stale_callback_returns:
  assumes "reachable p" "c \<in> set (timers p)" "q = stop now p \<or> q = dispose now p"
  shows "execute_callback (cb_tick c) h now' (run es q) = run es q
         \<and> (\<forall>k. k < length (timers (run es q)) \<and> cb_tick (timers (run es q) ! k) = cb_tick c \<longrightarrow>
               exec (Fire k h now') (run es q) =
                 (run es q)\<lparr>timers := remove_nth k (timers (run es q))\<rparr>)"
proof -
  from assms(1) have st: "inv_state p" and sl: "inv_stale p"
    by (simp_all add: reachable_inv_state reachable_inv_stale)
  from sl assms(2) have le: "cb_tick c \<le> p_tick p"
    and eq: "cb_tick c = p_tick p \<Longrightarrow> isDisposed p \<or> interval (p_state p) \<noteq> NEVER"
    unfolding inv_stale_def by auto
  from st assms(2) have nc: "phase (p_state p) \<noteq> Constructed"
    unfolding inv_state_def by auto
  have g: "cb_tick c < p_tick q \<or> (cb_tick c = p_tick q \<and> isDisposed q)"
  proof -
    have d: ?thesis if "q = dispose now p"
      using that le unfolding dispose_def isDisposed_def DISPOSED_STATE_def by auto
    have s: ?thesis if q: "q = stop now p"
    proof (cases "isDisposed p")
      case True
      then have "q = p" using q by (simp add: stop_def schedule_disposed)
      then show ?thesis using True le by auto
    next
      case False
      then have t: "q = transition now stop_next p"
        using q nc by (simp add: stop_def schedule_active)
      show ?thesis
      proof (cases "phase (p_state p) = Stopped")
        case True
        then have "q = p" unfolding t by (simp add: transition_cancelled stop_next_def)
        moreover from True st have "interval (p_state p) = NEVER"
          unfolding inv_state_def by blast
        with eq \<open>\<not> isDisposed p\<close> have "cb_tick c \<noteq> p_tick p" by blast
        with le have "cb_tick c < p_tick p" by simp
        ultimately show ?thesis by simp
      next
        case False
        then have "p_tick q = Suc (p_tick p)"
          unfolding t by (simp add: transition_not_cancelled stop_next_def)
        then show ?thesis using le by simp
      qed
    qed
    from d s assms(3) show ?thesis by blast
  qed
  have "later q (run es q)" by (rule later_run)
  with g have k: "isDisposed (run es q) \<or> p_tick (run es q) \<noteq> cb_tick c"
    unfolding later_def by auto
  then show ?thesis
    by (auto simp: execute_callback_def isDisposed_def)
qed

text \<open>
  Claim C8 says that \<open>stop\<close> and \<open>dispose\<close> both cancel the armed callback. \<open>dispose\<close>
  calls neither \<open>clearTimeout\<close> nor \<open>cancelAnimationFrame\<close>: the callback armed for the
  current tick is still armed after it. \<open>stop\<close> clears one handle, the one cached in
  \<open>_timeout\<close>: after \<open>refresh\<close>, \<open>stop\<close> and \<open>start\<close> called in a row the callback of the
  refresh and the one of the start are both armed, and a \<open>stop\<close> clears only the second.
\<close>

theorem armed_callbacks_left_by_dispose_and_stop:
  "timers armed_poll = [Callback AnimationFrame 1 (Num 0) 1]
   \<and> timers (dispose 5 armed_poll) = [Callback AnimationFrame 1 (Num 0) 1]
   \<and> timers twice_armed_poll =
       [Callback AnimationFrame 2 (Num 0) 2, Callback AnimationFrame 3 (Num 0) 4]
   \<and> phase (p_state (stop 9 twice_armed_poll)) = Stopped
   \<and> timers (stop 9 twice_armed_poll) = [Callback AnimationFrame 2 (Num 0) 2]"
  by (simp add: eval_defs)

text \<open>
  Claim C8, amended: \<open>dispose\<close> clears no callback; \<open>stop\<close>, when it makes its
  transition, clears the callback whose handle is cached in \<open>_timeout\<close>, with
  \<open>cancelAnimationFrame\<close> if the interval of the last state is \<open>IMMEDIATE\<close> and with
  \<open>clearTimeout\<close> otherwise, and clears nothing when it is cancelled or the poll is
  disposed. After either call a callback that was armed before it, cleared or not,
  never calls the factory and never makes a transition: if it runs, it returns at the
  test at its head.
\<close>

theorem callbacks_after_stop_or_dispose:
  assumes "reachable p" "c \<in> set (timers p)" "q = stop now p \<or> q = dispose now p"
  shows "timers (dispose now p) = timers p
         \<and> (\<not> isDisposed p \<and> phase (p_state p) \<noteq> Stopped \<longrightarrow>
               timers (stop now p) =
                 filter (\<lambda>d. \<not> (cb_kind d = (if strict_eq (interval (p_state p)) IMMEDIATE
                                              then AnimationFrame else Timeout)
                                 \<and> cb_handle d = p_timeout p))
                   (timers p))
         \<and> (isDisposed p \<or> phase (p_state p) = Stopped \<longrightarrow> timers (stop now p) = timers p)
         \<and> execute_callback (cb_tick c) h now' (run es q) = run es q
         \<and> (\<forall>k. k < length (timers (run es q)) \<and> cb_tick (timers (run es q) ! k) = cb_tick c \<longrightarrow>
               exec (Fire k h now') (run es q) =
                 (run es q)\<lparr>timers := remove_nth k (timers (run es q))\<rparr>)"
proof -
  from assms(1) have st: "inv_state p" by (rule reachable_inv_state)
  from st assms(2) have nc: "phase (p_state p) \<noteq> Constructed"
    unfolding inv_state_def by auto
  have d: "timers (dispose now p) = timers p"
    by (simp add: dispose_def)
  have a: "timers (stop now p) =
             filter (\<lambda>d. \<not> (cb_kind d = (if strict_eq (interval (p_state p)) IMMEDIATE
                                          then AnimationFrame else Timeout)
                             \<and> cb_handle d = p_timeout p))
               (timers p)"
    if "\<not> isDisposed p \<and> phase (p_state p) \<noteq> Stopped"
  proof -
    from that nc have "stop now p = transition now stop_next p"
      by (simp add: stop_def schedule_active)
    moreover from that
    have "\<not> (case cancel stop_next of None \<Rightarrow> False | Some c \<Rightarrow> c (p_state p))"
      by (simp add: stop_next_def)
    ultimately show ?thesis
      by (simp add: transition_not_cancelled clear_schedule_def Let_def)
  qed
  have b: "timers (stop now p) = timers p"
    if "isDisposed p \<or> phase (p_state p) = Stopped"
  proof (cases "isDisposed p")
    case True
    then show ?thesis by (simp add: stop_def schedule_disposed)
  next
    case False
    with that nc have "stop now p = transition now stop_next p" "phase (p_state p) = Stopped"
      by (simp_all add: stop_def schedule_active)
    then show ?thesis by (simp add: transition_cancelled stop_next_def)
  qed
  from stale_callback_returns [OF assms, of h now' es] d a b show ?thesis by blast
qed

section \<open>A disposed poll\<close>

lemma disposed_exec:
  assumes "isDisposed q" "\<forall>t \<in> set (tasks q). \<not> at_gate t"
  shows "isDisposed (exec e q) \<and> (\<forall>t \<in> set (tasks (exec e q)). \<not> at_gate t)
         \<and> p_state (exec e q) = p_state q \<and> ticked (exec e q) = ticked q
         \<and> factory_calls (exec e q) = factory_calls q \<and> disposed (exec e q) = disposed q
         \<and> promises (exec e q) = promises q"
proof (cases e)
  case (Resume k now)
  show ?thesis
  proof (cases "length (tasks q) \<le> k")
    case True
    then show ?thesis using assms Resume by (simp add: resume_def)
  next
    case False
    then have m: "tasks q ! k \<in> set (tasks q)" by simp
    with assms(2) have g: "\<not> at_gate (tasks q ! k)" by blast
    have r: "\<forall>t \<in> set (remove_nth k (tasks q)). \<not> at_gate t"
      using assms(2) in_remove_nth by fastforce
    show ?thesis
    proof (cases "tasks q ! k")
      case (AwaitTick t n)
      with g show ?thesis by simp
    next
      case (AwaitPending pd sc st)
      then show ?thesis using assms r False Resume
        by (simp add: resume_def arm_def isDisposed_def split: settlement.splits)
    qed
  qed
qed (use assms in \<open>simp_all add: refresh_def start_def stop_def schedule_disposed dispose_def
      set_frequency_def set_standby_def when_settled_def execute_callback_def settled_def
      isDisposed_def split: outcome.splits\<close>)

lemma disposed_run:
  assumes "isDisposed q" "\<forall>t \<in> set (tasks q). \<not> at_gate t"
  shows "p_state (run es q) = p_state q \<and> ticked (run es q) = ticked q
         \<and> factory_calls (run es q) = factory_calls q \<and> disposed (run es q) = disposed q
         \<and> promises (run es q) = promises q"
  using assms
proof (induction es arbitrary: q)
  case Nil
  then show ?case by (simp add: run_Nil)
next
  case (Cons e es)
  from disposed_exec [OF Cons.prems, of e] Cons.IH [of "exec e q"]
  show ?case unfolding run_Cons by simp
qed

section \<open>dispose\<close>

text \<open>
  What \<open>dispose\<close> does on a reachable poll that is not disposed: the poll is disposed,
  its state has the phase \<open>disposed\<close>, the interval \<open>NEVER\<close> and no payload, the tick
  promise, unsettled until then, is rejected with the error that names the poll as
  disposed, and \<open>disposed\<close> has emitted once more. A call of \<open>dispose\<close>, \<open>refresh\<close>,
  \<open>start\<close>, \<open>stop\<close> or \<open>schedule\<close> made on the poll it leaves returns that poll as it
  is. If no call of \<open>schedule\<close> was waiting for \<open>when\<close> at the disposal, nothing that
  happens later changes the state, the emissions or the rejected promise.
\<close>

lemma dispose_is_final:
  assumes "reachable p" "\<not> isDisposed p"
  shows "isDisposed (dispose now p)
         \<and> p_state (dispose now p) =
             \<lparr>interval = NEVER, payload = None, phase = Disposed, timestamp = now\<rparr>
         \<and> promises p (p_tick p) = Unsettled
         \<and> promises (dispose now p) (p_tick (dispose now p)) =
             Failed (Error (''Poll ('' @ name p @ '') is disposed.''))
         \<and> disposed (dispose now p) = Suc (disposed p)
         \<and> dispose now' (dispose now p) = dispose now p
         \<and> refresh now' (dispose now p) = dispose now p
         \<and> start now' (dispose now p) = dispose now p
         \<and> stop now' (dispose now p) = dispose now p
         \<and> schedule now' nxt (dispose now p) = dispose now p
         \<and> ((\<forall>t \<in> set (tasks p). \<not> at_gate t) \<longrightarrow>
               p_state (run es (dispose now p)) = p_state (dispose now p)
               \<and> ticked (run es (dispose now p)) = ticked p
               \<and> disposed (run es (dispose now p)) = Suc (disposed p)
               \<and> promises (run es (dispose now p)) (p_tick p) =
                   Failed (Error (''Poll ('' @ name p @ '') is disposed.'')))"
proof -
  define q where "q = dispose now p"
  from assms(1) have "inv_promises p" by (rule reachable_inv_promises)
  with assms(2) have u: "promises p (p_tick p) = Unsettled"
    unfolding inv_promises_def by blast
  have d: "isDisposed q"
    and s: "p_state q = \<lparr>interval = NEVER, payload = None, phase = Disposed, timestamp = now\<rparr>"
    and t: "p_tick q = p_tick p" and k: "tasks q = tasks p" and l: "ticked q = ticked p"
    and e: "disposed q = Suc (disposed p)"
    and f: "promises q (p_tick p) = Failed (Error (''Poll ('' @ name p @ '') is disposed.''))"
    unfolding q_def using assms(2) u
    by (simp_all add: dispose_def isDisposed_def DISPOSED_STATE_def reject_def)
  from d have c: "dispose now' q = q" "refresh now' q = q" "start now' q = q" "stop now' q = q"
      "schedule now' nxt q = q"
    by (simp_all add: dispose_def refresh_def start_def stop_def schedule_disposed)
  have r: "p_state (run es q) = p_state q \<and> ticked (run es q) = ticked p
           \<and> disposed (run es q) = Suc (disposed p)
           \<and> promises (run es q) (p_tick p) = Failed (Error (''Poll ('' @ name p @ '') is disposed.''))"
    if "\<forall>t \<in> set (tasks p). \<not> at_gate t"
    using disposed_run [OF d, of es] that k l e f by simp
  have "isDisposed q
         \<and> p_state q = \<lparr>interval = NEVER, payload = None, phase = Disposed, timestamp = now\<rparr>
         \<and> promises p (p_tick p) = Unsettled
         \<and> promises q (p_tick q) = Failed (Error (''Poll ('' @ name p @ '') is disposed.''))
         \<and> disposed q = Suc (disposed p)
         \<and> dispose now' q = q \<and> refresh now' q = q \<and> start now' q = q \<and> stop now' q = q
         \<and> schedule now' nxt q = q
         \<and> ((\<forall>t \<in> set (tasks p). \<not> at_gate t) \<longrightarrow>
               p_state (run es q) = p_state q \<and> ticked (run es q) = ticked p
               \<and> disposed (run es q) = Suc (disposed p)
               \<and> promises (run es q) (p_tick p) =
                   Failed (Error (''Poll ('' @ name p @ '') is disposed.'')))"
    using d s u t e f c r by simp
  then show ?thesis unfolding q_def .
qed

text \<open>
  Claim C4 says that after the first \<open>dispose\<close> the poll is disposed, \<open>disposed\<close> is
  emitted exactly once, and every later call of \<open>refresh\<close>, \<open>start\<close>, \<open>stop\<close> or
  \<open>schedule\<close> leaves the state as it is. The code does not: \<open>schedule\<close> tests
  \<open>isDisposed\<close> at its head only, not again after \<open>await this.tick\<close>, where the
  handlers of \<open>when\<close> in the constructor do test it after their wait. Below, a \<open>refresh\<close>
  is made before \<open>when\<close> resolves, \<open>when\<close> resolves and the poll is disposed; the
  suspended call then goes on and installs the state \<open>refreshed\<close>. The poll is no longer
  disposed, a \<open>stop\<close> made afterwards changes the state, and a second \<open>dispose\<close> emits
  \<open>disposed\<close> a second time.
\<close>

theorem dispose_undone_by_suspended_refresh:
  "isDisposed disposed_early_poll
   \<and> disposed disposed_early_poll = 1
   \<and> tasks disposed_early_poll ! 0 = AwaitTick 0 refresh_next
   \<and> \<not> isDisposed revived_poll
   \<and> p_state revived_poll =
       \<lparr>interval = IMMEDIATE, payload = None, phase = Refreshed, timestamp = 4\<rparr>
   \<and> p_state (stop 5 revived_poll) =
       \<lparr>interval = NEVER, payload = None, phase = Stopped, timestamp = 5\<rparr>
   \<and> disposed (dispose 6 revived_poll) = 2"
  by (simp add: eval_defs)

section \<open>The stored frequency\<close>

lemma Math_round_idem: "Math_round (Math_round a) = Math_round a"
  by (cases a) simp_all

lemma validate_idem: "validate f = Inr g \<Longrightarrow> validate g = Inr g"
  unfolding validate_def Let_def
  by (auto split: if_splits simp: Math_round_idem)

lemma frequency_transition: "p_frequency (transition now n p) = p_frequency p"
  by (simp add: transition_def Let_def)

lemma frequency_schedule: "p_frequency (schedule now n p) = p_frequency p"
  by (simp add: schedule_def frequency_transition)

lemma frequency_resume: "p_frequency (resume k now p) = p_frequency p"
  by (simp add: resume_def frequency_transition arm_def split: task.splits settlement.splits)

lemma frequency_exec:
  "p_frequency (exec e p) = p_frequency p \<or> (\<exists>f. validate f = Inr (p_frequency (exec e p)))"
proof (cases e)
  case (SetFrequency f)
  then show ?thesis
    by (auto simp: set_frequency_def split: sum.splits if_splits)
qed (simp_all add: refresh_def start_def stop_def frequency_schedule dispose_def set_standby_def
      when_settled_def frequency_resume execute_callback_def execute_def settled_def
      split: outcome.splits)

lemma reachable_frequency: "reachable p \<Longrightarrow> validate (p_frequency p) = Inr (p_frequency p)"
proof (induction rule: reachable.induct)
  case (constructed opts now p)
  then show ?case
    unfolding construct_def by (auto split: sum.splits dest: validate_idem)
next
  case (event p e)
  then show ?case using frequency_exec [of e p] validate_idem by auto
qed

lemma strict_eq_eq: "strict_eq a b \<Longrightarrow> a = b"
  by (simp add: strict_eq_def)

lemma deepEqual_eq: "deepEqual f g \<Longrightarrow> f = g"
  unfolding deepEqual_def
  by (cases f, cases g) (auto split: backoff.splits dest: strict_eq_eq)

lemma not_lt_le: "a \<noteq> NaN \<Longrightarrow> b \<noteq> NaN \<Longrightarrow> \<not> lt b a \<Longrightarrow> le a b"
  by (cases a; cases b) (auto simp: le_def strict_eq_def)

lemma Math_round_NaN: "Math_round a = NaN \<longleftrightarrow> a = NaN"
  by (cases a) simp_all

lemma validate_bounds:
  assumes "validate f = Inr g" "freq_interval f \<noteq> NaN" "freq_max f \<noteq> NaN"
    "freq_backoff f \<noteq> Growth NaN"
  shows "le (Num 0) (freq_interval g) \<and> le (freq_interval g) (freq_max g)
         \<and> le (freq_max g) MAX_INTERVAL
         \<and> (case freq_backoff g of Growth b \<Rightarrow> ge b (Num 1) | Flag c \<Rightarrow> True)"
proof -
  from assms(1) have g: "g = \<lparr>freq_backoff = freq_backoff f,
      freq_interval = Math_round (freq_interval f), freq_max = Math_round (freq_max f)\<rparr>"
    and b: "\<not> (case freq_backoff f of Growth b \<Rightarrow> lt b (Num 1) | Flag c \<Rightarrow> False)"
    and i: "\<not> lt (Math_round (freq_interval f)) (Num 0)"
    and m: "\<not> lt (Math_round (freq_max f)) (Math_round (freq_interval f))"
    and x: "\<not> lt MAX_INTERVAL (Math_round (freq_max f))"
    unfolding validate_def Let_def gt_def by (auto split: if_splits)
  have ni: "Math_round (freq_interval f) \<noteq> NaN" and nm: "Math_round (freq_max f) \<noteq> NaN"
    using assms(2,3) by (simp_all add: Math_round_NaN)
  have "le (Num 0) (Math_round (freq_interval f))"
    using i ni by (intro not_lt_le) simp_all
  moreover have "le (Math_round (freq_interval f)) (Math_round (freq_max f))"
    using m ni nm by (intro not_lt_le) simp_all
  moreover have "le (Math_round (freq_max f)) MAX_INTERVAL"
    using x nm by (intro not_lt_le) (simp_all add: MAX_INTERVAL_def)
  moreover have "case freq_backoff f of Growth b \<Rightarrow> ge b (Num 1) | Flag c \<Rightarrow> True"
    using b assms(4) by (auto split: backoff.splits simp: ge_def intro!: not_lt_le)
  ultimately show ?thesis by (simp add: g)
qed

section \<open>The frequency setter\<close>

text \<open>
  Claim C3 says that an invalid assignment throws and that every accepted one leaves
  \<open>0 <= interval <= max <= MAX_INTERVAL\<close>. The setter rounds the two fields and
  throws \<open>Poll interval must be between 0 and max\<close>, but an interval \<open>NaN\<close> passes its
  three tests, since every comparison with \<open>NaN\<close> is false, and is stored: the
  assignment below is accepted by a poll that is not disposed, and \<open>0 <= interval\<close> is
  false afterwards.
\<close>

theorem nan_frequency_accepted:
  "\<not> isDisposed poll0
   \<and> set_frequency \<lparr>freq_backoff = Flag True, freq_interval = NaN, freq_max = Num 30000\<rparr> poll0
       = Inr (poll0\<lparr>p_frequency :=
                \<lparr>freq_backoff = Flag True, freq_interval = NaN, freq_max = Num 30000\<rparr>\<rparr>)
   \<and> \<not> le (Num 0) (freq_interval
              (p_frequency (poll0\<lparr>p_frequency :=
                \<lparr>freq_backoff = Flag True, freq_interval = NaN, freq_max = Num 30000\<rparr>\<rparr>)))"
  by (simp add: eval_defs le_def)

text \<open>
  What the setter does check, on a reachable poll that is not disposed: an assignment
  whose value is invalid (after the rounding of \<open>interval\<close> and \<open>max\<close>: a numeric backoff
  below 1, an interval below 0 or above \<open>max\<close>, or \<open>max\<close> above \<open>MAX_INTERVAL\<close>) throws, and
  the poll is left as it was; an accepted assignment in which no field is \<open>NaN\<close> leaves
  a stored frequency within the bounds; the constructor without frequency options
  stores the default frequency, which is within them.
\<close>

lemma frequency_setter_checks:
  assumes "reachable p" "\<not> isDisposed p"
  shows "(((case freq_backoff f of Growth b \<Rightarrow> lt b (Num 1) | Flag c \<Rightarrow> False)
            \<or> lt (Math_round (freq_interval f)) (Num 0)
            \<or> gt (Math_round (freq_interval f)) (Math_round (freq_max f))
            \<or> gt (Math_round (freq_max f)) MAX_INTERVAL)
           \<longrightarrow> (\<exists>e. set_frequency f p = Inl e) \<and> exec (SetFrequency f) p = p)
         \<and> (freq_interval f \<noteq> NaN \<and> freq_max f \<noteq> NaN \<and> freq_backoff f \<noteq> Growth NaN
              \<and> set_frequency f p = Inr q
           \<longrightarrow> le (Num 0) (freq_interval (p_frequency q))
               \<and> le (freq_interval (p_frequency q)) (freq_max (p_frequency q))
               \<and> le (freq_max (p_frequency q)) MAX_INTERVAL
               \<and> (case freq_backoff (p_frequency q) of Growth b \<Rightarrow> ge b (Num 1) | Flag c \<Rightarrow> True))
         \<and> (o_backoff opts = None \<and> o_interval opts = None \<and> o_max opts = None
           \<longrightarrow> (\<exists>r :: 'a poll. construct opts now = Inr r \<and> p_frequency r = DEFAULT_FREQUENCY
                  \<and> le (Num 0) (freq_interval (p_frequency r))
                  \<and> le (freq_interval (p_frequency r)) (freq_max (p_frequency r))
                  \<and> le (freq_max (p_frequency r)) MAX_INTERVAL))"
proof -
  from assms(1) have v: "validate (p_frequency p) = Inr (p_frequency p)"
    by (rule reachable_frequency)
  have a: "(\<exists>e. set_frequency f p = Inl e) \<and> exec (SetFrequency f) p = p"
    if bad: "(case freq_backoff f of Growth b \<Rightarrow> lt b (Num 1) | Flag c \<Rightarrow> False)
            \<or> lt (Math_round (freq_interval f)) (Num 0)
            \<or> gt (Math_round (freq_interval f)) (Math_round (freq_max f))
            \<or> gt (Math_round (freq_max f)) MAX_INTERVAL"
  proof -
    from bad have i: "\<exists>e. validate f = Inl e"
      unfolding validate_def Let_def by auto
    have "\<not> deepEqual f (p_frequency p)"
    proof
      assume "deepEqual f (p_frequency p)"
      then have "f = p_frequency p" by (rule deepEqual_eq)
      with v i show False by auto
    qed
    with i assms(2) have "\<exists>e. set_frequency f p = Inl e"
      by (auto simp: set_frequency_def)
    then show ?thesis by auto
  qed
  have b: "le (Num 0) (freq_interval (p_frequency q))
               \<and> le (freq_interval (p_frequency q)) (freq_max (p_frequency q))
               \<and> le (freq_max (p_frequency q)) MAX_INTERVAL
               \<and> (case freq_backoff (p_frequency q) of Growth b \<Rightarrow> ge b (Num 1) | Flag c \<Rightarrow> True)"
    if n: "freq_interval f \<noteq> NaN" "freq_max f \<noteq> NaN" "freq_backoff f \<noteq> Growth NaN"
      and s: "set_frequency f p = Inr q"
  proof (cases "deepEqual f (p_frequency p)")
    case True
    then have e: "f = p_frequency p" by (rule deepEqual_eq)
    from True s have "q = p" by (simp add: set_frequency_def)
    with e v n validate_bounds [of f f] show ?thesis by simp
  next
    case False
    with s assms(2) have "validate f = Inr (p_frequency q)"
      by (auto simp: set_frequency_def split: sum.splits)
    with n show ?thesis by (intro validate_bounds)
  qed
  have c: "\<exists>r :: 'a poll. construct opts now = Inr r \<and> p_frequency r = DEFAULT_FREQUENCY
                  \<and> le (Num 0) (freq_interval (p_frequency r))
                  \<and> le (freq_interval (p_frequency r)) (freq_max (p_frequency r))
                  \<and> le (freq_max (p_frequency r)) MAX_INTERVAL"
    if "o_backoff opts = None \<and> o_interval opts = None \<and> o_max opts = None"
    using that
    by (simp add: construct_def validate_def DEFAULT_FREQUENCY_def gt_def MAX_INTERVAL_def
        le_def strict_eq_def)
  from a b c show ?thesis by blast
qed

section \<open>The theorems at the example polls\<close>

lemma reachable_run:
  "reachable p \<Longrightarrow> \<forall>e \<in> set es. possible e \<Longrightarrow> reachable (run es p)"
proof (induction es arbitrary: p)
  case Nil
  then show ?case by (simp add: run_Nil)
next
  case (Cons e es)
  then show ?case unfolding run_Cons by (simp add: reachable.event)
qed

lemma reachable_poll0: "reachable poll0"
  using poll0_constructed by (rule reachable.constructed)

lemma reachable_armed: "reachable armed_poll"
  unfolding armed_poll_def by (rule reachable_run [OF reachable_poll0]) simp

lemma reachable_polling: "reachable polling_poll"
  unfolding polling_poll_def by (rule reachable_run [OF reachable_armed]) simp

lemma reachable_rejected: "reachable rejected_poll"
  unfolding rejected_poll_def by (rule reachable_run [OF reachable_polling]) simp

lemma reachable_scheduled: "reachable scheduled_poll"
  unfolding scheduled_poll_def by (rule reachable_run [OF reachable_poll0]) simp

theorem payload_only_after_settlement_witness:
  "reachable (run [Settle 0 (Resolves (Some ''ok'')) 4 0] polling_poll)
   \<and> payload (p_state (run [Settle 0 (Resolves (Some ''ok'')) 4 0] polling_poll)) = Some ''ok''
   \<and> phase (p_state (run [Settle 0 (Resolves (Some ''ok'')) 4 0] polling_poll)) = Resolved"
proof -
  have r: "reachable (run [Settle 0 (Resolves (Some ''ok'')) 4 0] polling_poll)"
    by (rule reachable_run [OF reachable_polling]) simp
  have v: "payload (p_state (run [Settle 0 (Resolves (Some ''ok'')) 4 0] polling_poll)) = Some ''ok''"
    by (simp add: eval_defs)
  then have n: "payload (p_state (run [Settle 0 (Resolves (Some ''ok'')) 4 0] polling_poll)) \<noteq> None"
    by simp
  have "phase (p_state (run [Settle 0 (Resolves (Some ''ok'')) 4 0] polling_poll)) \<noteq> Rejected"
       "phase (p_state (run [Settle 0 (Resolves (Some ''ok'')) 4 0] polling_poll)) \<noteq> Reconnected"
    by (simp_all add: eval_defs)
  with payload_only_after_settlement [OF r n] r v show ?thesis by simp
qed

theorem success_after_rejection_reconnects_witness:
  "reachable rejected_poll \<and> 0 < length (requests rejected_poll)
   \<and> requests rejected_poll ! 0 = p_tick rejected_poll \<and> \<not> isDisposed rejected_poll
   \<and> phase (p_state rejected_poll) = Rejected
   \<and> p_state (exec (Settle 0 (Resolves (Some ''ok'')) 7 0) rejected_poll) =
       \<lparr>interval = Num 1000, payload = Some ''ok'', phase = Reconnected, timestamp = 7\<rparr>
   \<and> (\<exists>pre. map phase (ticked (exec (Settle 0 (Resolves (Some ''ok'')) 7 0) rejected_poll)) =
              pre @ [Rejected, Reconnected])"
proof -
  define q where "q = exec (Settle 0 (Resolves (Some ''ok'')) 7 0) rejected_poll"
  have h: "0 < length (requests rejected_poll)" "requests rejected_poll ! 0 = p_tick rejected_poll"
    "\<not> isDisposed rejected_poll" "phase (p_state rejected_poll) = Rejected"
    "freq_interval (p_frequency rejected_poll) = Num 1000"
    by (simp_all add: eval_defs)
  note t = success_after_rejection_reconnects [OF reachable_rejected h(1,2,3),
      of "Some ''ok''" 7 0, folded q_def]
  from t h(4,5) have "p_state q =
       \<lparr>interval = Num 1000, payload = Some ''ok'', phase = Reconnected, timestamp = 7\<rparr>"
    by simp
  moreover from t h(4) have "\<exists>pre. map phase (ticked q) = pre @ [Rejected, Reconnected]"
    by blast
  ultimately show ?thesis using reachable_rejected h(1,2,3,4) unfolding q_def by blast
qed


lemma reachable_stopped: "reachable stopped_poll"
  unfolding stopped_poll_def by (rule reachable_run [OF reachable_armed]) simp

theorem refresh_twice_one_transition_witness:
  "\<not> isDisposed armed_poll \<and> phase (p_state armed_poll) \<noteq> Constructed
   \<and> phase (p_state armed_poll) \<noteq> Refreshed
   \<and> p_state (refresh 5 armed_poll) =
       \<lparr>interval = IMMEDIATE, payload = None, phase = Refreshed, timestamp = 5\<rparr>
   \<and> ticked (refresh 5 armed_poll) = ticked armed_poll @ [p_state (refresh 5 armed_poll)]
   \<and> refresh 6 (refresh 5 armed_poll) = refresh 5 armed_poll
   \<and> phase (p_state poll0) = Constructed
   \<and> refresh 6 (refresh 5 poll0) =
       poll0\<lparr>tasks := tasks poll0 @ [AwaitTick (p_tick poll0) refresh_next,
                                       AwaitTick (p_tick poll0) refresh_next]\<rparr>
   \<and> phase (p_state scheduled_poll) \<noteq> Refreshed
   \<and> transition 6 refresh_next (transition 5 refresh_next scheduled_poll) =
       transition 5 refresh_next scheduled_poll"
proof -
  have h: "\<not> isDisposed armed_poll" "phase (p_state armed_poll) \<noteq> Constructed"
    "phase (p_state armed_poll) \<noteq> Refreshed" "phase (p_state poll0) = Constructed"
    "phase (p_state scheduled_poll) \<noteq> Refreshed"
    by (simp_all add: eval_defs)
  from refresh_twice_one_transition [of armed_poll 5 6 scheduled_poll] h(1,2,3,5)
  have a: "p_state (refresh 5 armed_poll) =
       \<lparr>interval = IMMEDIATE, payload = None, phase = Refreshed, timestamp = 5\<rparr>
   \<and> ticked (refresh 5 armed_poll) = ticked armed_poll @ [p_state (refresh 5 armed_poll)]
   \<and> refresh 6 (refresh 5 armed_poll) = refresh 5 armed_poll
   \<and> transition 6 refresh_next (transition 5 refresh_next scheduled_poll) =
       transition 5 refresh_next scheduled_poll"
    by blast
  from refresh_twice_one_transition [of poll0 5 6 scheduled_poll] h(4)
  have b: "refresh 6 (refresh 5 poll0) =
       poll0\<lparr>tasks := tasks poll0 @ [AwaitTick (p_tick poll0) refresh_next,
                                       AwaitTick (p_tick poll0) refresh_next]\<rparr>"
    by blast
  from a b h show ?thesis by blast
qed

theorem start_only_from_standby_or_stopped_witness:
  "phase (p_state stopped_poll) = Stopped
   \<and> p_state (start 6 stopped_poll) =
       \<lparr>interval = IMMEDIATE, payload = None, phase = Started, timestamp = 6\<rparr>
   \<and> phase (p_state armed_poll) = WhenResolved
   \<and> start 6 armed_poll = armed_poll
   \<and> transition 6 start_next armed_poll = armed_poll
   \<and> phase (p_state poll0) = Constructed
   \<and> start 6 poll0 = poll0\<lparr>tasks := tasks poll0 @ [AwaitTick (p_tick poll0) start_next]\<rparr>"
proof -
  have h: "phase (p_state stopped_poll) = Stopped" "phase (p_state armed_poll) = WhenResolved"
    "phase (p_state poll0) = Constructed"
    by (simp_all add: eval_defs)
  from start_only_from_standby_or_stopped [of stopped_poll 6 armed_poll] h(1,2)
  have a: "p_state (start 6 stopped_poll) =
       \<lparr>interval = IMMEDIATE, payload = None, phase = Started, timestamp = 6\<rparr>
     \<and> transition 6 start_next armed_poll = armed_poll"
    by simp
  from start_only_from_standby_or_stopped [of armed_poll 6 armed_poll] h(2)
  have b: "start 6 armed_poll = armed_poll" by simp
  from start_only_from_standby_or_stopped [of poll0 6 armed_poll] h(3)
  have c: "start 6 poll0 = poll0\<lparr>tasks := tasks poll0 @ [AwaitTick (p_tick poll0) start_next]\<rparr>"
    by simp
  from a b c h show ?thesis by blast
qed

theorem callbacks_after_stop_or_dispose_witness:
  "reachable armed_poll
   \<and> Callback AnimationFrame 1 (Num 0) 1 \<in> set (timers armed_poll)
   \<and> \<not> isDisposed armed_poll \<and> phase (p_state armed_poll) \<noteq> Stopped
   \<and> timers (stop 5 armed_poll) = []
   \<and> timers (dispose 5 armed_poll) = timers armed_poll
   \<and> phase (p_state (run [Resume 0 6, Start 7, Resume 0 8] (stop 5 armed_poll))) = Started
   \<and> execute_callback 1 visible 9 (run [Resume 0 6, Start 7, Resume 0 8] (stop 5 armed_poll))
       = run [Resume 0 6, Start 7, Resume 0 8] (stop 5 armed_poll)
   \<and> execute_callback 1 visible 9 (run [Refresh 6, Fire 0 visible 7] (dispose 5 armed_poll))
       = run [Refresh 6, Fire 0 visible 7] (dispose 5 armed_poll)"
proof -
  have m: "Callback AnimationFrame 1 (Num 0) 1 \<in> set (timers armed_poll)"
    by (simp add: eval_defs)
  have n: "\<not> isDisposed armed_poll" "phase (p_state armed_poll) \<noteq> Stopped"
    by (simp_all add: eval_defs)
  have v: "timers armed_poll = [Callback AnimationFrame 1 (Num 0) 1]"
    "interval (p_state armed_poll) = Num 0" "p_timeout armed_poll = 1"
    by (simp_all add: eval_defs)
  have s: "phase (p_state (run [Resume 0 6, Start 7, Resume 0 8] (stop 5 armed_poll))) = Started"
    by (simp add: eval_defs)
  note t = callbacks_after_stop_or_dispose [OF reachable_armed m,
      of "stop 5 armed_poll" 5 visible 9 "[Resume 0 6, Start 7, Resume 0 8]"]
  from t n have "timers (stop 5 armed_poll) =
      filter (\<lambda>d. \<not> (cb_kind d = (if strict_eq (interval (p_state armed_poll)) IMMEDIATE
                                   then AnimationFrame else Timeout)
                      \<and> cb_handle d = p_timeout armed_poll))
        (timers armed_poll)"
    by blast
  then have c: "timers (stop 5 armed_poll) = []"
    by (simp add: v strict_eq_def IMMEDIATE_def)
  from t have d: "timers (dispose 5 armed_poll) = timers armed_poll" by blast
  from t
  have a: "execute_callback (cb_tick (Callback AnimationFrame 1 (Num 0) 1)) visible 9
             (run [Resume 0 6, Start 7, Resume 0 8] (stop 5 armed_poll))
       = run [Resume 0 6, Start 7, Resume 0 8] (stop 5 armed_poll)"
    by blast
  from callbacks_after_stop_or_dispose [OF reachable_armed m,
      of "dispose 5 armed_poll" 5 visible 9 "[Refresh 6, Fire 0 visible 7]"]
  have b: "execute_callback (cb_tick (Callback AnimationFrame 1 (Num 0) 1)) visible 9
             (run [Refresh 6, Fire 0 visible 7] (dispose 5 armed_poll))
       = run [Refresh 6, Fire 0 visible 7] (dispose 5 armed_poll)"
    by blast
  have e: "cb_tick (Callback AnimationFrame 1 (Num 0) 1) = 1" by simp
  from reachable_armed m n c d s a [unfolded e] b [unfolded e] show ?thesis by blast
qed

lemma dispose_is_final_example:
  "reachable scheduled_poll \<and> \<not> isDisposed scheduled_poll
   \<and> tasks scheduled_poll =
       [AwaitPending 0 1 \<lparr>interval = IMMEDIATE, payload = None, phase = WhenResolved, timestamp = 1\<rparr>]
   \<and> \<not> at_gate (AwaitPending 0 1
             \<lparr>interval = IMMEDIATE, payload = None :: string option, phase = WhenResolved, timestamp = 1\<rparr>)
   \<and> isDisposed (dispose 5 scheduled_poll)
   \<and> p_state (dispose 5 scheduled_poll) =
       \<lparr>interval = NEVER, payload = None, phase = Disposed, timestamp = 5\<rparr>
   \<and> promises (dispose 5 scheduled_poll) (p_tick (dispose 5 scheduled_poll)) =
       Failed (Error ''Poll (unknown) is disposed.'')
   \<and> disposed (dispose 6 (dispose 5 scheduled_poll)) = 1
   \<and> stop 6 (dispose 5 scheduled_poll) = dispose 5 scheduled_poll
   \<and> p_state (run [Resume 0 6, Fire 0 visible 7, Refresh 8, Start 9] (dispose 5 scheduled_poll)) =
       \<lparr>interval = NEVER, payload = None, phase = Disposed, timestamp = 5\<rparr>"
proof -
  have h: "\<not> isDisposed scheduled_poll"
    "tasks scheduled_poll =
       [AwaitPending 0 1 \<lparr>interval = IMMEDIATE, payload = None, phase = WhenResolved, timestamp = 1\<rparr>]"
    "\<forall>t \<in> set (tasks scheduled_poll). \<not> at_gate t" "name scheduled_poll = ''unknown''"
    "disposed scheduled_poll = 0"
    by (simp_all add: eval_defs)
  note t = dispose_is_final [OF reachable_scheduled h(1), of 5 6 empty_next
      "[Resume 0 6, Fire 0 visible 7, Refresh 8, Start 9]"]
  from t h(3) have a: "p_state (run [Resume 0 6, Fire 0 visible 7, Refresh 8, Start 9] (dispose 5 scheduled_poll)) =
       \<lparr>interval = NEVER, payload = None, phase = Disposed, timestamp = 5\<rparr>"
    by simp
  from t h(4) have b: "promises (dispose 5 scheduled_poll) (p_tick (dispose 5 scheduled_poll)) =
       Failed (Error ''Poll (unknown) is disposed.'')"
    by simp
  from t h(5) have c: "disposed (dispose 6 (dispose 5 scheduled_poll)) = 1"
    by simp
  have g: "\<not> at_gate (AwaitPending 0 1
             \<lparr>interval = IMMEDIATE, payload = None :: string option, phase = WhenResolved, timestamp = 1\<rparr>)"
    by simp
  from t have d: "isDisposed (dispose 5 scheduled_poll)"
    and s: "p_state (dispose 5 scheduled_poll) =
       \<lparr>interval = NEVER, payload = None, phase = Disposed, timestamp = 5\<rparr>"
    and e: "stop 6 (dispose 5 scheduled_poll) = dispose 5 scheduled_poll"
    by blast+
  from reachable_scheduled h(1,2) g d s b c e a show ?thesis by blast
qed

lemma frequency_setter_checks_example:
  "reachable poll0 \<and> \<not> isDisposed poll0
   \<and> lt (Math_round (Num (- 5))) (Num 0)
   \<and> (\<exists>e. set_frequency \<lparr>freq_backoff = Flag True, freq_interval = Num (- 5), freq_max = Num 100\<rparr>
              poll0 = Inl e)
   \<and> set_frequency \<lparr>freq_backoff = Growth (Num 2), freq_interval = Num (21 / 2), freq_max = Num 100\<rparr>
        poll0
       = Inr (poll0\<lparr>p_frequency :=
                \<lparr>freq_backoff = Growth (Num 2), freq_interval = Num 11, freq_max = Num 100\<rparr>\<rparr>)
   \<and> le (Num 0) (Num 11) \<and> le (Num 11) (Num 100) \<and> le (Num 100) MAX_INTERVAL
   \<and> ge (Num 2) (Num 1)
   \<and> (\<exists>r :: string poll. construct default_options 0 = Inr r \<and> p_frequency r = DEFAULT_FREQUENCY)"
proof -
  define q where "q = poll0\<lparr>p_frequency :=
                \<lparr>freq_backoff = Growth (Num 2), freq_interval = Num 11, freq_max = Num 100\<rparr>\<rparr>"
  have d: "\<not> isDisposed poll0" by (simp add: eval_defs)
  have l: "lt (Math_round (Num (- 5))) (Num 0)" by simp
  have s: "set_frequency \<lparr>freq_backoff = Growth (Num 2), freq_interval = Num (21 / 2), freq_max = Num 100\<rparr>
        poll0 = Inr q"
    unfolding q_def by (simp add: eval_defs)
  have o: "o_backoff default_options = None \<and> o_interval default_options = None
           \<and> o_max default_options = None"
    by (simp add: default_options_def)
  from frequency_setter_checks [OF reachable_poll0 d,
      of "\<lparr>freq_backoff = Flag True, freq_interval = Num (- 5), freq_max = Num 100\<rparr>"
         q default_options 0] l o
  have a: "\<exists>e. set_frequency \<lparr>freq_backoff = Flag True, freq_interval = Num (- 5), freq_max = Num 100\<rparr>
              poll0 = Inl e"
    and c: "\<exists>r :: string poll. construct default_options 0 = Inr r \<and> p_frequency r = DEFAULT_FREQUENCY"
    by auto
  from frequency_setter_checks [OF reachable_poll0 d,
      of "\<lparr>freq_backoff = Growth (Num 2), freq_interval = Num (21 / 2), freq_max = Num 100\<rparr>"
         q default_options 0] s
  have b: "le (Num 0) (Num 11) \<and> le (Num 11) (Num 100) \<and> le (Num 100) MAX_INTERVAL
           \<and> ge (Num 2) (Num 1)"
    by (auto simp: q_def)
  from a b c d l s reachable_poll0 show ?thesis unfolding q_def by blast
qed

end
